theory Spec2Isabelle
  imports Main "HOL-Library.AList" "HOL-Library.Sublist"
begin

section \<open>The grammar model (grammar.js)\<close>

text \<open>
  A Symbol is a character string together with the flag that says whether it is a
  terminal.  Strings are lists of characters; the characters of the alphabet are the
  code units of the JavaScript strings.
\<close>

record symbol =
  ch :: string
  isTerminal :: bool

definition Symbol :: "string \<Rightarrow> bool \<Rightarrow> symbol" where
  "Symbol c t = \<lparr>ch = c, isTerminal = t\<rparr>"

definition Symbol_equals :: "symbol \<Rightarrow> symbol \<Rightarrow> bool" where
  "Symbol_equals a b = (ch a = ch b \<and> isTerminal a = isTerminal b)"

text \<open>
  A SymArray wraps an array of Symbols; the empty array is epsilon.  Its \<open>equals\<close>
  compares the lengths and then the Symbols position by position.
\<close>

type_synonym symArray = "symbol list"

definition SymArray_equals :: "symArray \<Rightarrow> symArray \<Rightarrow> bool" where
  "SymArray_equals a b = (length a = length b \<and> list_all2 Symbol_equals a b)"

record production =
  lhs :: symbol
  rhs :: "symArray list"

definition Production :: "symbol \<Rightarrow> symArray list \<Rightarrow> production" where
  "Production l r = \<lparr>lhs = l, rhs = r\<rparr>"

definition rhsContains :: "production \<Rightarrow> symArray \<Rightarrow> bool" where
  "rhsContains p a = list_ex (\<lambda>x. SymArray_equals x a) (rhs p)"

definition addArray :: "symArray \<Rightarrow> production \<Rightarrow> production" where
  "addArray a p = (if \<not> rhsContains p a then p\<lparr>rhs := rhs p @ [a]\<rparr> else p)"

text \<open>
  A Grammar holds the start symbol, the object \<open>productions\<close> whose keys are the
  characters of the nonterminals (an association list from keys to Productions) and the
  array \<open>nonterminals\<close> that keeps the order of insertion.
\<close>

record grammar =
  startSymbol :: symbol
  productions :: "(string \<times> production) list"
  nonterminals :: "string list"

definition Grammar :: "symbol \<Rightarrow> grammar" where
  "Grammar s = \<lparr>startSymbol = s, productions = [], nonterminals = []\<rparr>"

fun mergeRhs :: "symArray list \<Rightarrow> production \<Rightarrow> production" where
  "mergeRhs [] cur = cur"
| "mergeRhs (a # as) cur =
     mergeRhs as (if \<not> rhsContains cur a then cur\<lparr>rhs := rhs cur @ [a]\<rparr> else cur)"

definition addProduction :: "production \<Rightarrow> grammar \<Rightarrow> grammar" where
  "addProduction p g =
     (case map_of (productions g) (ch (lhs p)) of
        Some currentProduction \<Rightarrow>
          g\<lparr>productions :=
              AList.update (ch (lhs p)) (mergeRhs (rhs p) currentProduction) (productions g)\<rparr>
      | None \<Rightarrow>
          g\<lparr>productions := productions g @ [(ch (lhs p), p)],
            nonterminals := nonterminals g @ [ch (lhs p)]\<rparr>)"

section \<open>States of the Earley parser\<close>

text \<open>
  The left-hand side of a State is a reference to a Symbol object.  The parser tells the
  dummy symbol \<open>State.START_LHS\<close> from every other Symbol by the identity of the object
  (\<open>===\<close>), so a reference is either that object or a Symbol of the grammar.
\<close>

datatype symbol_ref = START_LHS | GrammarSymbol symbol

fun deref :: "symbol_ref \<Rightarrow> symbol" where
  "deref START_LHS = Symbol [] False"
| "deref (GrammarSymbol s) = s"

text \<open>
  A State object has the fields \<open>lhs\<close>, \<open>symArray\<close>, \<open>currentPosition\<close>,
  \<open>originPosition\<close>, \<open>prev\<close> and \<open>counter\<close>.  All of them but \<open>prev\<close> are never
  assigned after construction, and \<open>counter\<close> is different for every object made since
  \<open>State.counter\<close> was last reset.  A reference to a State is therefore modelled by the
  record of its constant fields, the counter being the identity of the object.  The
  \<open>prev\<close> array of a State is an array of such references.  A State that has just been
  made is the pair of its record and its \<open>prev\<close> array; once \<open>addState\<close> has pushed
  it into the chart, where \<open>addState\<close> may later extend its \<open>prev\<close> array in place, the
  array lives in a store indexed by the counter.  The store also holds the global
  \<open>State.counter\<close>.
\<close>

record state =
  lhs :: symbol_ref
  symArray :: symArray
  currentPosition :: int
  originPosition :: nat
  counter :: nat

record heap =
  State_counter :: nat
  prev :: "nat \<Rightarrow> state list"

datatype error =
    StateCurrentPositionOutOfBounds symbol_ref symArray int
  | StateInputIndexOutOfBounds state int
  | TypeError

type_synonym new_state = "state \<times> state list"

definition State ::
  "symbol_ref \<Rightarrow> symArray \<Rightarrow> int \<Rightarrow> nat \<Rightarrow> state list \<Rightarrow> heap \<Rightarrow> error + (new_state \<times> heap)" where
  "State l sa cp op pv h =
     (if cp < 0 \<or> cp > int (length sa) then Inl (StateCurrentPositionOutOfBounds l sa cp)
      else
        let c = State_counter h + 1 in
        Inr ((\<lparr>lhs = l, symArray = sa, currentPosition = cp, originPosition = op, counter = c\<rparr>,
              pv),
             h\<lparr>State_counter := c\<rparr>))"

definition hasStart :: "state \<Rightarrow> bool" where
  "hasStart s = (lhs s = START_LHS)"

definition isComplete :: "state \<Rightarrow> bool" where
  "isComplete s = (currentPosition s = int (length (symArray s)))"

definition isCompleteParse :: "state \<Rightarrow> bool" where
  "isCompleteParse s = (hasStart s \<and> isComplete s)"

text \<open>
  Reading \<open>symbols[currentPosition]\<close> outside the array gives \<open>undefined\<close>;
  \<open>getNextSymbol\<close> gives \<open>null\<close> for a complete State.  Both are falsy, and both are
  \<open>None\<close> here.
\<close>

definition symbolAt :: "symArray \<Rightarrow> int \<Rightarrow> symbol option" where
  "symbolAt sa i = (if 0 \<le> i \<and> i < int (length sa) then Some (sa ! nat i) else None)"

definition getNextSymbol :: "state \<Rightarrow> symbol option" where
  "getNextSymbol s =
     (if currentPosition s = int (length (symArray s)) then None
      else symbolAt (symArray s) (currentPosition s))"

definition hasNonterminalNext :: "state \<Rightarrow> symbol \<Rightarrow> bool" where
  "hasNonterminalNext s nonterminal =
     (case symbolAt (symArray s) (currentPosition s) of
        Some nextSymbol \<Rightarrow> Symbol_equals nonterminal nextSymbol
      | None \<Rightarrow> False)"

definition getAdvancedState ::
  "state \<Rightarrow> state list \<Rightarrow> heap \<Rightarrow> error + (new_state \<times> heap)" where
  "getAdvancedState s pv h =
     State (lhs s) (symArray s) (currentPosition s + 1) (originPosition s) pv h"

definition State_equals :: "state \<Rightarrow> state \<Rightarrow> bool" where
  "State_equals a b =
     (Symbol_equals (deref (lhs a)) (deref (lhs b)) \<and>
      SymArray_equals (symArray a) (symArray b) \<and>
      currentPosition a = currentPosition b \<and>
      originPosition a = originPosition b)"

definition prevArraysEqual :: "heap \<Rightarrow> state \<Rightarrow> state \<Rightarrow> bool" where
  "prevArraysEqual h state1 state2 =
     (let prev1 = prev h (counter state1); prev2 = prev h (counter state2) in
      length prev1 = length prev2 \<and> map counter prev1 = map counter prev2)"

definition containsState :: "heap \<Rightarrow> state list \<Rightarrow> state \<Rightarrow> bool \<Rightarrow> bool" where
  "containsState h sts st opt_checkprev =
     list_ex (\<lambda>x. State_equals x st \<and> (\<not> opt_checkprev \<or> prevArraysEqual h x st)) sts"

section \<open>The chart (Context)\<close>

record context_t =
  input :: string
  states :: "state list list"

definition Context :: "string \<Rightarrow> context_t" where
  "Context inp = \<lparr>input = inp, states = replicate (length inp + 1) []\<rparr>"

definition getState :: "context_t \<Rightarrow> state \<Rightarrow> nat \<Rightarrow> state option" where
  "getState ctx st inputIndex = find (\<lambda>x. State_equals x st) (states ctx ! inputIndex)"

lemma State_equals_refl: "State_equals x x"
  by (simp add: State_equals_def Symbol_equals_def SymArray_equals_def list_all2_same)

lemma prevArraysEqual_refl: "prevArraysEqual h x x"
  by (simp add: prevArraysEqual_def)

lemma containsState_member: "x \<in> set xs \<Longrightarrow> containsState h xs x b"
  by (auto simp: containsState_def list_ex_iff State_equals_refl prevArraysEqual_refl
        intro: bexI [of _ x])

text \<open>
  The loop of \<open>addState\<close> over \<open>state.prev\<close>, which pushes to \<open>equalState.prev\<close>.
  The State that is added is not yet in the chart and its array is its own, so the loop
  runs over the array as it is when \<open>addState\<close> is called.
\<close>

fun addState_merge :: "state list \<Rightarrow> state \<Rightarrow> heap \<Rightarrow> bool \<Rightarrow> bool \<times> heap" where
  "addState_merge [] equalState h addedPrev = (addedPrev, h)"
| "addState_merge (newState # rest) equalState h addedPrev =
     (if \<not> containsState h (prev h (counter equalState)) newState True
      then addState_merge rest equalState
             (h\<lparr>prev := (prev h)(counter equalState := prev h (counter equalState) @ [newState])\<rparr>)
             True
      else addState_merge rest equalState h addedPrev)"

definition addState ::
  "new_state \<Rightarrow> int \<Rightarrow> context_t \<Rightarrow> heap \<Rightarrow> error + (bool \<times> context_t \<times> heap)" where
  "addState new inputIndex ctx h =
     (case new of (st, st_prev) \<Rightarrow>
        if inputIndex < 0 \<or> inputIndex > int (length (input ctx)) + 1
        then Inl (StateInputIndexOutOfBounds st inputIndex)
        else if inputIndex = int (length (input ctx)) + 1 then Inr (False, ctx, h)
        else if \<not> nat inputIndex < length (states ctx) then Inl TypeError
        else
          (case getState ctx st (nat inputIndex) of
             None \<Rightarrow>
               Inr (True,
                    ctx\<lparr>states :=
                          (states ctx)[nat inputIndex := states ctx ! nat inputIndex @ [st]]\<rparr>,
                    h\<lparr>prev := (prev h)(counter st := st_prev)\<rparr>)
           | Some equalState \<Rightarrow>
               (case addState_merge st_prev equalState h False of
                  (addedPrev, h') \<Rightarrow> Inr (addedPrev, ctx, h'))))"

section \<open>The parser (Earley)\<close>

definition DERIVATION_LIMIT :: nat where
  "DERIVATION_LIMIT = 50000"

text \<open>The loop of the prediction step over \<open>production.rhs\<close>.\<close>

fun predict_loop ::
  "symArray list \<Rightarrow> symbol \<Rightarrow> nat \<Rightarrow> state \<Rightarrow> bool \<Rightarrow> context_t \<Rightarrow> heap
   \<Rightarrow> error + (bool \<times> context_t \<times> heap)" where
  "predict_loop [] nextSymbol i st newAddedStates ctx h = Inr (newAddedStates, ctx, h)"
| "predict_loop (alt # alts) nextSymbol i st newAddedStates ctx h =
     (case State (GrammarSymbol nextSymbol) alt 0 i [st] h of
        Inl e \<Rightarrow> Inl e
      | Inr (next, h1) \<Rightarrow>
          (case addState next (int i) ctx h1 of
             Inl e \<Rightarrow> Inl e
           | Inr (added, ctx2, h2) \<Rightarrow>
               predict_loop alts nextSymbol i st (newAddedStates \<or> added) ctx2 h2))"

text \<open>
  The loop of the completion step.  It runs over the first \<open>ssLen\<close> entries of
  \<open>searchStates\<close>, the length being read before the loop; a bucket only grows at its
  end and the fields read here are constant, so these entries are the bucket as it was
  when the loop began.
\<close>

fun complete_loop ::
  "state list \<Rightarrow> state \<Rightarrow> nat \<Rightarrow> bool \<Rightarrow> context_t \<Rightarrow> heap
   \<Rightarrow> error + (bool \<times> context_t \<times> heap)" where
  "complete_loop [] st i newAddedStates ctx h = Inr (newAddedStates, ctx, h)"
| "complete_loop (searchState # searchStates) st i newAddedStates ctx h =
     (if hasNonterminalNext searchState (deref (lhs st)) then
        (case getAdvancedState searchState [st] h of
           Inl e \<Rightarrow> Inl e
         | Inr (next, h1) \<Rightarrow>
             (case addState next (int i) ctx h1 of
                Inl e \<Rightarrow> Inl e
              | Inr (added, ctx2, h2) \<Rightarrow>
                  complete_loop searchStates st i (newAddedStates \<or> added) ctx2 h2))
      else complete_loop searchStates st i newAddedStates ctx h)"

text \<open>
  Looking up a nonterminal without a Production gives \<open>undefined\<close>, and reading
  \<open>production.rhs\<close> then throws a TypeError; so does reading the length of a bucket
  that does not exist.
\<close>

definition prediction ::
  "grammar \<Rightarrow> symbol \<Rightarrow> nat \<Rightarrow> state \<Rightarrow> bool \<Rightarrow> context_t \<Rightarrow> heap
   \<Rightarrow> error + (bool \<times> context_t \<times> heap)" where
  "prediction g nextSymbol i st newAddedStates ctx h =
     (case map_of (productions g) (ch nextSymbol) of
        None \<Rightarrow> Inl TypeError
      | Some production \<Rightarrow> predict_loop (rhs production) nextSymbol i st newAddedStates ctx h)"

definition completion ::
  "nat \<Rightarrow> state \<Rightarrow> bool \<Rightarrow> context_t \<Rightarrow> heap \<Rightarrow> error + (bool \<times> context_t \<times> heap)" where
  "completion i st newAddedStates ctx h =
     (if originPosition st < length (states ctx)
      then complete_loop (states ctx ! originPosition st) st i newAddedStates ctx h
      else Inl TypeError)"

text \<open>The body of the loop over \<open>k\<close>: one State of the bucket is examined.\<close>

definition examine ::
  "grammar \<Rightarrow> nat \<Rightarrow> state \<Rightarrow> bool \<Rightarrow> context_t \<Rightarrow> heap
   \<Rightarrow> error + (bool \<times> context_t \<times> heap)" where
  "examine g i st newAddedStates ctx h =
     (case getNextSymbol st of
        Some nextSymbol \<Rightarrow>
          if \<not> isTerminal nextSymbol then prediction g nextSymbol i st newAddedStates ctx h
          else if isComplete st then completion i st newAddedStates ctx h
          else Inr (newAddedStates, ctx, h)
      | None \<Rightarrow>
          if isComplete st then completion i st newAddedStates ctx h
          else Inr (newAddedStates, ctx, h))"

text \<open>
  One pass of the loop over \<open>k\<close>, which runs up to the length the bucket had when the
  pass began.
\<close>

fun pass ::
  "grammar \<Rightarrow> nat \<Rightarrow> state list \<Rightarrow> bool \<Rightarrow> context_t \<Rightarrow> heap
   \<Rightarrow> error + (bool \<times> context_t \<times> heap)" where
  "pass g i [] newAddedStates ctx h = Inr (newAddedStates, ctx, h)"
| "pass g i (st # sts) newAddedStates ctx h =
     (case examine g i st newAddedStates ctx h of
        Inl e \<Rightarrow> Inl e
      | Inr (flag, ctx2, h2) \<Rightarrow> pass g i sts flag ctx2 h2)"

text \<open>
  The loop \<open>while (newAddedStates)\<close>.  A loop that does not end has the value
  \<open>None\<close>; an exception ends it with \<open>Some (Inl e)\<close>.
\<close>

partial_function (option) closure ::
  "grammar \<Rightarrow> nat \<Rightarrow> context_t \<Rightarrow> heap \<Rightarrow> (error + (context_t \<times> heap)) option" where
  "closure g i ctx h =
     (case pass g i (states ctx ! i) False ctx h of
        Inl e \<Rightarrow> Some (Inl e)
      | Inr (newAddedStates, ctx2, h2) \<Rightarrow>
          if newAddedStates then closure g i ctx2 h2 else Some (Inr (ctx2, h2)))"

definition charAt :: "string \<Rightarrow> nat \<Rightarrow> string option" where
  "charAt s i = (if i < length s then Some [s ! i] else None)"

definition scanning :: "nat \<Rightarrow> state \<Rightarrow> context_t \<Rightarrow> heap \<Rightarrow> error + (context_t \<times> heap)" where
  "scanning i st ctx h =
     (case getNextSymbol st of
        Some nextSymbol \<Rightarrow>
          if isTerminal nextSymbol \<and> charAt (input ctx) i = Some (ch nextSymbol) then
            (case getAdvancedState st [st] h of
               Inl e \<Rightarrow> Inl e
             | Inr (next, h1) \<Rightarrow>
                 (case addState next (int i + 1) ctx h1 of
                    Inl e \<Rightarrow> Inl e
                  | Inr (added, ctx2, h2) \<Rightarrow> Inr (ctx2, h2)))
          else Inr (ctx, h)
      | None \<Rightarrow> Inr (ctx, h))"

text \<open>The loop over \<open>j\<close>, which reads the length of the bucket at every turn.\<close>

partial_function (option) position_loop ::
  "grammar \<Rightarrow> nat \<Rightarrow> nat \<Rightarrow> context_t \<Rightarrow> heap \<Rightarrow> (error + (context_t \<times> heap)) option" where
  "position_loop g i j ctx h =
     (if j < length (states ctx ! i) then
        (case closure g i ctx h of
           None \<Rightarrow> None
         | Some (Inl e) \<Rightarrow> Some (Inl e)
         | Some (Inr (ctx1, h1)) \<Rightarrow>
             (case scanning i (states ctx1 ! i ! j) ctx1 h1 of
                Inl e \<Rightarrow> Some (Inl e)
              | Inr (ctx2, h2) \<Rightarrow> position_loop g i (j + 1) ctx2 h2))
      else Some (Inr (ctx, h)))"

text \<open>The loop over the positions \<open>i\<close> of the input, from 0 to its length.\<close>

fun chart_loop ::
  "grammar \<Rightarrow> nat list \<Rightarrow> context_t \<Rightarrow> heap \<Rightarrow> (error + (context_t \<times> heap)) option" where
  "chart_loop g [] ctx h = Some (Inr (ctx, h))"
| "chart_loop g (i # is) ctx h =
     (case position_loop g i 0 ctx h of
        None \<Rightarrow> None
      | Some (Inl e) \<Rightarrow> Some (Inl e)
      | Some (Inr (ctx2, h2)) \<Rightarrow> chart_loop g is ctx2 h2)"

declare closure.simps [code] position_loop.simps [code]

text \<open>
  The first part of \<open>doesMatch\<close>: the chart is created, seeded with the start State
  and filled.
\<close>

definition buildChart ::
  "grammar \<Rightarrow> string \<Rightarrow> heap \<Rightarrow> (error + (context_t \<times> heap)) option" where
  "buildChart g inp h =
     (case State START_LHS [startSymbol g] 0 0 [] h of
        Inl e \<Rightarrow> Some (Inl e)
      | Inr (startState, h1) \<Rightarrow>
          (case addState startState 0 (Context inp) h1 of
             Inl e \<Rightarrow> Some (Inl e)
           | Inr (added, ctx2, h2) \<Rightarrow> chart_loop g [0..<length inp + 1] ctx2 h2))"

section \<open>Reconstruction of a derivation\<close>

text \<open>
  \<open>escapeHTML\<close> writes the string into a text node and reads the markup of its parent
  back: the browser replaces the ampersand, the two angle brackets and the no-break
  space by their entities and leaves every other character as it is.
\<close>

definition escapeChar :: "char \<Rightarrow> string" where
  "escapeChar c =
     (if c = CHR ''&'' then ''&amp;''
      else if c = CHR ''<'' then ''&lt;''
      else if c = CHR ''>'' then ''&gt;''
      else if c = CHR 0xA0 then ''&nbsp;''
      else [c])"

definition escapeHTML :: "string \<Rightarrow> string" where
  "escapeHTML str = concat (map escapeChar str)"

text \<open>
  \<open>Symbol.toString\<close> and \<open>SymArray.toString\<close> as \<open>getDerivation\<close> calls them, with
  \<open>showNonterminal\<close> false: the escaped characters, one after the other, and the
  letter epsilon (its two bytes in UTF-8) for the empty array.
\<close>

definition Symbol_toString :: "symbol \<Rightarrow> string" where
  "Symbol_toString s = escapeHTML (ch s)"

definition SymArray_toString :: "symArray \<Rightarrow> string" where
  "SymArray_toString sa =
     (if length sa = 0 then [CHR 0xCE, CHR 0xB5] else concat (map Symbol_toString sa))"

text \<open>
  \<open>lastIndexOf\<close>: the greatest index at which the searched string begins, looked for
  from the end; \<open>None\<close> stands for -1.
\<close>

fun lastIndexFrom :: "string \<Rightarrow> string \<Rightarrow> nat \<Rightarrow> nat option" where
  "lastIndexFrom s t 0 = (if take (length t) s = t then Some 0 else None)"
| "lastIndexFrom s t (Suc i) =
     (if take (length t) (drop (Suc i) s) = t then Some (Suc i) else lastIndexFrom s t i)"

definition lastIndexOf :: "string \<Rightarrow> string \<Rightarrow> nat option" where
  "lastIndexOf s t =
     (if length t \<le> length s then lastIndexFrom s t (length s - length t) else None)"

definition replaceLastNonterminalStr :: "string \<Rightarrow> string \<Rightarrow> string \<Rightarrow> string" where
  "replaceLastNonterminalStr symString lhsString insertString =
     (case lastIndexOf symString lhsString of
        None \<Rightarrow> symString
      | Some i \<Rightarrow> take i symString @ insertString @ drop (i + 1) symString)"

text \<open>
  \<open>getDerivation\<close> keeps two arrays, \<open>queue\<close> and \<open>strings\<close>, that are pushed to
  and shifted together; they are one list of pairs here.  The function has three exits:
  it returns the path found, or the empty array when the counter passes the limit, or the
  empty array when the queue is empty.  \<open>search\<close> names the exit taken.
\<close>

datatype search = Found "state list" | LimitReached | Exhausted

text \<open>The loop over \<open>currentState.prev\<close>.\<close>

fun expand ::
  "string \<Rightarrow> state list \<Rightarrow> string \<Rightarrow> state list \<Rightarrow> (state list \<times> string) list \<Rightarrow> nat
   \<Rightarrow> search + ((state list \<times> string) list \<times> nat)" where
  "expand inp sts currentSymString [] queue n = Inr (queue, n)"
| "expand inp sts currentSymString (newState # rest) queue n =
     (let newStates = sts @ [newState];
          newSymString =
            (if currentPosition newState = int (length (symArray newState)) then
               let insertString =
                     (if length (symArray newState) = 0 then []
                      else SymArray_toString (symArray newState))
               in replaceLastNonterminalStr currentSymString
                    (Symbol_toString (deref (lhs newState))) insertString
             else currentSymString)
      in if newSymString = inp then Inl (Found newStates)
         else if n + 1 > DERIVATION_LIMIT then Inl LimitReached
         else expand inp sts currentSymString rest (queue @ [(newStates, newSymString)]) (n + 1))"

lemma expand_continues:
  "expand inp sts cur pv queue n = Inr (queue', n') \<Longrightarrow>
     n' = n + length pv \<and> length queue' = length queue + length pv \<and>
     (pv \<noteq> [] \<longrightarrow> n' \<le> DERIVATION_LIMIT)"
proof (induction pv arbitrary: queue n)
  case Nil
  then show ?case by simp
next
  case (Cons newState rest)
  let ?q = "queue @ [(sts @ [newState],
      if currentPosition newState = int (length (symArray newState)) then
        replaceLastNonterminalStr cur (Symbol_toString (deref (lhs newState)))
          (if length (symArray newState) = 0 then []
           else SymArray_toString (symArray newState))
      else cur)]"
  from Cons.prems have step: "expand inp sts cur rest ?q (n + 1) = Inr (queue', n')"
    and le: "n + 1 \<le> DERIVATION_LIMIT"
    by (auto simp: Let_def split: if_splits)
  from Cons.IH [OF step] le show ?case by (cases rest) auto
qed

text \<open>The loop \<open>while (queue.length !== 0)\<close>.\<close>

function search_loop :: "heap \<Rightarrow> string \<Rightarrow> (state list \<times> string) list \<Rightarrow> nat \<Rightarrow> search" where
  "search_loop h inp [] n = Exhausted"
| "search_loop h inp ((sts, currentSymString) # queue) n =
     (case expand inp sts currentSymString (prev h (counter (last sts))) queue n of
        Inl r \<Rightarrow> r
      | Inr (queue', n') \<Rightarrow> search_loop h inp queue' n')"
  by pat_completeness auto
termination
proof (relation "measures [\<lambda>(h, inp, queue, n). DERIVATION_LIMIT + 1 - n,
                           \<lambda>(h, inp, queue, n). length queue]")
  fix h :: heap and inp sts currentSymString queue n x2 queue' n'
  assume "expand inp sts currentSymString (prev h (counter (last sts))) queue n = Inr x2"
    and "(queue', n') = x2"
  then have "expand inp sts currentSymString (prev h (counter (last sts))) queue n
             = Inr (queue', n')"
    by simp
  from expand_continues [OF this]
  show "((h, inp, queue', n'), (h, inp, (sts, currentSymString) # queue, n))
        \<in> measures [\<lambda>(h, inp, queue, n). DERIVATION_LIMIT + 1 - n,
                      \<lambda>(h, inp, queue, n). length queue]"
    by (cases "prev h (counter (last sts))") auto
qed simp

definition search_from :: "heap \<Rightarrow> state \<Rightarrow> string \<Rightarrow> search" where
  "search_from h match inp =
     search_loop h (escapeHTML inp) [([match], SymArray_toString (symArray match))] 0"

definition getDerivation :: "heap \<Rightarrow> state \<Rightarrow> string \<Rightarrow> state list" where
  "getDerivation h match inp =
     (case search_from h match inp of
        Found newStates \<Rightarrow> newStates
      | LimitReached \<Rightarrow> []
      | Exhausted \<Rightarrow> [])"

text \<open>
  \<open>doesMatch\<close>: the chart is built, and the first complete start State of the last
  bucket, if there is one, is handed to \<open>getDerivation\<close>.  The result \<open>None\<close> of the
  inner option is \<open>null\<close>.
\<close>

definition doesMatch ::
  "grammar \<Rightarrow> string \<Rightarrow> heap \<Rightarrow> (error + (state list option \<times> heap)) option" where
  "doesMatch g inp h =
     (case buildChart g inp h of
        None \<Rightarrow> None
      | Some (Inl e) \<Rightarrow> Some (Inl e)
      | Some (Inr (ctx, h2)) \<Rightarrow>
          Some (Inr (case find isCompleteParse (states ctx ! length inp) of
                       None \<Rightarrow> None
                     | Some match \<Rightarrow> Some (getDerivation h2 match inp),
                     h2)))"

section \<open>Construction of States and insertion into the chart\<close>

lemma State_result:
  "State l sa cp op pv h =
     (if cp < 0 \<or> int (length sa) < cp then Inl (StateCurrentPositionOutOfBounds l sa cp)
      else Inr ((\<lparr>lhs = l, symArray = sa, currentPosition = cp, originPosition = op,
                  counter = State_counter h + 1\<rparr>, pv),
                h\<lparr>State_counter := State_counter h + 1\<rparr>))"
  by (simp add: State_def Let_def)

text \<open>
  Claim C9.  Constructing a State whose \<open>currentPosition\<close> is below 0 or above the
  length of its SymArray throws the error \<open>StateCurrentPositionOutOfBounds\<close>, whose
  message names the rule and the position; for every position from 0 to the length the
  construction succeeds and the State carries the position as given, not a clamped one.
\<close>

theorem State_currentPosition_checked:
  "(cp < 0 \<or> int (length sa) < cp \<longrightarrow>
      State l sa cp op pv h = Inl (StateCurrentPositionOutOfBounds l sa cp)) \<and>
   (0 \<le> cp \<and> cp \<le> int (length sa) \<longrightarrow>
      (\<exists>st h'. State l sa cp op pv h = Inr ((st, pv), h') \<and> currentPosition st = cp \<and>
         lhs st = l \<and> symArray st = sa \<and> originPosition st = op))"
  by (auto simp: State_result)

theorem State_currentPosition_checked_witness:
  "State START_LHS [Symbol ''S'' False] 2 0 [] \<lparr>State_counter = 0, prev = (\<lambda>c. [])\<rparr>
     = Inl (StateCurrentPositionOutOfBounds START_LHS [Symbol ''S'' False] 2) \<and>
   State START_LHS [Symbol ''S'' False] (- 1) 0 [] \<lparr>State_counter = 0, prev = (\<lambda>c. [])\<rparr>
     = Inl (StateCurrentPositionOutOfBounds START_LHS [Symbol ''S'' False] (- 1)) \<and>
   (\<exists>st h'. State START_LHS [Symbol ''S'' False] 1 0 [] \<lparr>State_counter = 0, prev = (\<lambda>c. [])\<rparr>
              = Inr ((st, []), h') \<and> currentPosition st = 1)"
  using State_currentPosition_checked [of 2 "[Symbol ''S'' False]" START_LHS 0 "[]"
          "\<lparr>State_counter = 0, prev = (\<lambda>c. [])\<rparr>"]
        State_currentPosition_checked [of "- 1" "[Symbol ''S'' False]" START_LHS 0 "[]"
          "\<lparr>State_counter = 0, prev = (\<lambda>c. [])\<rparr>"]
        State_currentPosition_checked [of 1 "[Symbol ''S'' False]" START_LHS 0 "[]"
          "\<lparr>State_counter = 0, prev = (\<lambda>c. [])\<rparr>"]
  by auto

text \<open>
  Claim C8.  Adding a State at the index \<open>input.length + 1\<close> changes nothing and returns
  false; adding at a negative index or at an index above \<open>input.length + 1\<close> throws
  \<open>StateInputIndexOutOfBounds\<close>.
\<close>

theorem addState_index_checked:
  "addState (st, st_prev) (int (length (input ctx)) + 1) ctx h = Inr (False, ctx, h) \<and>
   (p < 0 \<or> int (length (input ctx)) + 1 < p \<longrightarrow>
      addState (st, st_prev) p ctx h = Inl (StateInputIndexOutOfBounds st p))"
  by (simp add: addState_def)

definition start_state :: state where
  "start_state = \<lparr>lhs = START_LHS, symArray = [Symbol ''S'' False], currentPosition = 0,
                  originPosition = 0, counter = 1\<rparr>"

theorem addState_index_checked_witness:
  "addState (start_state, []) 3 (Context ''01'') \<lparr>State_counter = 1, prev = (\<lambda>c. [])\<rparr>
     = Inr (False, Context ''01'', \<lparr>State_counter = 1, prev = (\<lambda>c. [])\<rparr>) \<and>
   addState (start_state, []) (- 1) (Context ''01'') \<lparr>State_counter = 1, prev = (\<lambda>c. [])\<rparr>
     = Inl (StateInputIndexOutOfBounds start_state (- 1)) \<and>
   addState (start_state, []) 4 (Context ''01'') \<lparr>State_counter = 1, prev = (\<lambda>c. [])\<rparr>
     = Inl (StateInputIndexOutOfBounds start_state 4)"
  using addState_index_checked [of start_state "[]" "Context ''01''"
          "\<lparr>State_counter = 1, prev = (\<lambda>c. [])\<rparr>" "- 1"]
        addState_index_checked [of start_state "[]" "Context ''01''"
          "\<lparr>State_counter = 1, prev = (\<lambda>c. [])\<rparr>" 4]
  by (simp add: Context_def)

subsection \<open>The merge of the prev arrays\<close>

lemma addState_merge_result:
  "addState_merge pv e h a = (a', h') \<Longrightarrow>
     \<exists>ys. prev h' (counter e) = prev h (counter e) @ ys \<and> subseq ys pv \<and>
          (a' \<longleftrightarrow> a \<or> ys \<noteq> []) \<and>
          (\<forall>c. c \<noteq> counter e \<longrightarrow> prev h' c = prev h c) \<and>
          State_counter h' = State_counter h \<and>
          (ys = [] \<longrightarrow> h' = h)"
proof (induction pv arbitrary: h a)
  case Nil
  then show ?case by simp
next
  case (Cons q rest)
  show ?case
  proof (cases "containsState h (prev h (counter e)) q True")
    case True
    with Cons.prems have "addState_merge rest e h a = (a', h')" by simp
    from Cons.IH [OF this] show ?thesis by (auto intro: subseq_Cons')
  next
    case False
    let ?h = "h\<lparr>prev := (prev h)(counter e := prev h (counter e) @ [q])\<rparr>"
    from False Cons.prems have "addState_merge rest e ?h True = (a', h')" by simp
    from Cons.IH [OF this] obtain ys where
      ys: "prev h' (counter e) = prev ?h (counter e) @ ys" "subseq ys rest" "a'"
        "\<forall>c. c \<noteq> counter e \<longrightarrow> prev h' c = prev ?h c" "State_counter h' = State_counter ?h"
      by auto
    show ?thesis
      by (rule exI [of _ "q # ys"]) (use ys in auto)
  qed
qed

lemma addState_merge_added:
  "addState_merge pv e h a = (a', h') \<Longrightarrow>
     (a' \<longleftrightarrow> a \<or> (\<exists>q\<in>set pv. \<not> containsState h (prev h (counter e)) q True))"
proof (induction pv arbitrary: h a)
  case Nil
  then show ?case by simp
next
  case (Cons q rest)
  show ?case
  proof (cases "containsState h (prev h (counter e)) q True")
    case True
    with Cons.prems have "addState_merge rest e h a = (a', h')" by simp
    from Cons.IH [OF this] True show ?thesis by simp
  next
    case False
    let ?h = "h\<lparr>prev := (prev h)(counter e := prev h (counter e) @ [q])\<rparr>"
    from False Cons.prems have "addState_merge rest e ?h True = (a', h')" by simp
    from Cons.IH [OF this] False show ?thesis by simp
  qed
qed

lemma containsState_mono:
  "containsState h xs q False \<Longrightarrow> containsState h' (xs @ ys) q False"
  by (auto simp: containsState_def list_ex_iff)

lemma containsState_weaken: "containsState h xs q b \<Longrightarrow> containsState h' xs q False"
  by (auto simp: containsState_def list_ex_iff)

lemma addState_merge_covers:
  "addState_merge pv e h a = (a', h') \<Longrightarrow>
     \<forall>q\<in>set pv. containsState h' (prev h' (counter e)) q False"
proof (induction pv arbitrary: h a)
  case Nil
  then show ?case by simp
next
  case (Cons q rest)
  show ?case
  proof (cases "containsState h (prev h (counter e)) q True")
    case True
    with Cons.prems have step: "addState_merge rest e h a = (a', h')" by simp
    from addState_merge_result [OF step] obtain ys where
      "prev h' (counter e) = prev h (counter e) @ ys" by blast
    with True have "containsState h' (prev h' (counter e)) q False"
      by (auto intro: containsState_mono containsState_weaken)
    with Cons.IH [OF step] show ?thesis by simp
  next
    case False
    let ?h = "h\<lparr>prev := (prev h)(counter e := prev h (counter e) @ [q])\<rparr>"
    from False Cons.prems have step: "addState_merge rest e ?h True = (a', h')" by simp
    from addState_merge_result [OF step] obtain ys where
      "prev h' (counter e) = prev ?h (counter e) @ ys" by blast
    then have "q \<in> set (prev h' (counter e))" by simp
    then have "containsState h' (prev h' (counter e)) q False"
      by (rule containsState_member)
    with Cons.IH [OF step] show ?thesis by simp
  qed
qed

text \<open>
  The loop taken one entry at a time: the result for an array with one more entry at its
  end, and the stores after each of the entries.
\<close>

lemma addState_merge_snoc:
  "addState_merge (pv @ [q]) e h a =
     (case addState_merge pv e h a of
        (a1, h1) \<Rightarrow>
          if \<not> containsState h1 (prev h1 (counter e)) q True
          then (True, h1\<lparr>prev := (prev h1)(counter e := prev h1 (counter e) @ [q])\<rparr>)
          else (a1, h1))"
  by (induction pv arbitrary: h a) simp_all

lemma addState_merge_steps:
  fixes pv e h
  defines "hs \<equiv> \<lambda>k. snd (addState_merge (take k pv) e h False)"
  shows "hs 0 = h" and "hs (length pv) = snd (addState_merge pv e h False)"
    and "\<forall>i<length pv. hs (Suc i) =
           (if containsState (hs i) (prev (hs i) (counter e)) (pv ! i) True then hs i
            else (hs i)\<lparr>prev := (prev (hs i))(counter e := prev (hs i) (counter e) @ [pv ! i])\<rparr>)"
proof -
  show "hs 0 = h" by (simp add: hs_def)
  show "hs (length pv) = snd (addState_merge pv e h False)" by (simp add: hs_def)
  show "\<forall>i<length pv. hs (Suc i) =
           (if containsState (hs i) (prev (hs i) (counter e)) (pv ! i) True then hs i
            else (hs i)\<lparr>prev := (prev (hs i))(counter e := prev (hs i) (counter e) @ [pv ! i])\<rparr>)"
  proof (intro allI impI)
    fix i
    assume "i < length pv"
    then have "take (Suc i) pv = take i pv @ [pv ! i]" by (rule take_Suc_conv_app_nth)
    then show "hs (Suc i) =
           (if containsState (hs i) (prev (hs i) (counter e)) (pv ! i) True then hs i
            else (hs i)\<lparr>prev := (prev (hs i))(counter e := prev (hs i) (counter e) @ [pv ! i])\<rparr>)"
      by (simp add: hs_def addState_merge_snoc split: prod.splits)
  qed
qed

text \<open>
  Claim C3, as the code has it.  At an index within the input, \<open>addState\<close> pushes the
  State and returns true when the bucket holds no State equal to it.  When it holds one,
  \<open>addState\<close> goes through the \<open>prev\<close> array of the new State in order, and
  \<open>hs i\<close> is the store after \<open>i\<close> of its entries: an entry is appended to the
  \<open>prev\<close> array of the State in the bucket exactly when \<open>containsState\<close> does not
  find it there at that moment (a State that equals it, with the same counters in its
  \<open>prev\<close> array), and otherwise the store stays as it is.  So the array afterwards is
  the array before with entries of the new State appended in order, and nothing else in
  the store changes; \<open>addState\<close> returns true exactly when it appended something,
  which is exactly when some entry is not found in the array as it was; afterwards every
  entry has an equal State in the array; and the entries that were in the array before
  are still there, at the front.
\<close>

theorem addState_in_range:
  assumes range: "0 \<le> p" "p \<le> int (length (input ctx))" "nat p < length (states ctx)"
  shows "(getState ctx st (nat p) = None \<longrightarrow>
            addState (st, st_prev) p ctx h =
              Inr (True, ctx\<lparr>states := (states ctx)[nat p := states ctx ! nat p @ [st]]\<rparr>,
                   h\<lparr>prev := (prev h)(counter st := st_prev)\<rparr>)) \<and>
         (\<forall>e. getState ctx st (nat p) = Some e \<longrightarrow>
            (\<exists>h' ys hs. addState (st, st_prev) p ctx h = Inr (ys \<noteq> [], ctx, h') \<and>
               prev h' (counter e) = prev h (counter e) @ ys \<and> subseq ys st_prev \<and>
               (ys \<noteq> [] \<longleftrightarrow> (\<exists>q\<in>set st_prev. \<not> containsState h (prev h (counter e)) q True)) \<and>
               (\<forall>q\<in>set st_prev. containsState h' (prev h' (counter e)) q False) \<and>
               (\<forall>c. c \<noteq> counter e \<longrightarrow> prev h' c = prev h c) \<and>
               State_counter h' = State_counter h \<and>
               hs 0 = h \<and> hs (length st_prev) = h' \<and>
               (\<forall>i<length st_prev. hs (Suc i) =
                  (if containsState (hs i) (prev (hs i) (counter e)) (st_prev ! i) True
                   then hs i
                   else (hs i)\<lparr>prev := (prev (hs i))
                                  (counter e := prev (hs i) (counter e) @ [st_prev ! i])\<rparr>))))"
proof (intro conjI impI allI)
  assume "getState ctx st (nat p) = None"
  with range show "addState (st, st_prev) p ctx h =
      Inr (True, ctx\<lparr>states := (states ctx)[nat p := states ctx ! nat p @ [st]]\<rparr>,
           h\<lparr>prev := (prev h)(counter st := st_prev)\<rparr>)"
    by (simp add: addState_def)
next
  fix e
  assume e: "getState ctx st (nat p) = Some e"
  obtain a' h' where m: "addState_merge st_prev e h False = (a', h')"
    by (cases "addState_merge st_prev e h False")
  from addState_merge_result [OF m] obtain ys where
    ys: "prev h' (counter e) = prev h (counter e) @ ys" "subseq ys st_prev" "a' \<longleftrightarrow> ys \<noteq> []"
      "\<forall>c. c \<noteq> counter e \<longrightarrow> prev h' c = prev h c" "State_counter h' = State_counter h"
    by auto
  let ?hs = "\<lambda>k. snd (addState_merge (take k st_prev) e h False)"
  from addState_merge_steps [of st_prev e h] m
  have steps: "?hs 0 = h" "?hs (length st_prev) = h'"
    "\<forall>i<length st_prev. ?hs (Suc i) =
       (if containsState (?hs i) (prev (?hs i) (counter e)) (st_prev ! i) True then ?hs i
        else (?hs i)\<lparr>prev := (prev (?hs i))
                        (counter e := prev (?hs i) (counter e) @ [st_prev ! i])\<rparr>)"
    by simp_all
  from range e m ys(3) have A: "addState (st, st_prev) p ctx h = Inr (ys \<noteq> [], ctx, h')"
    by (simp add: addState_def)
  from addState_merge_added [OF m] ys(3)
  have B: "ys \<noteq> [] \<longleftrightarrow> (\<exists>q\<in>set st_prev. \<not> containsState h (prev h (counter e)) q True)"
    by simp
  note C = addState_merge_covers [OF m]
  show "\<exists>h' ys hs. addState (st, st_prev) p ctx h = Inr (ys \<noteq> [], ctx, h') \<and>
               prev h' (counter e) = prev h (counter e) @ ys \<and> subseq ys st_prev \<and>
               (ys \<noteq> [] \<longleftrightarrow> (\<exists>q\<in>set st_prev. \<not> containsState h (prev h (counter e)) q True)) \<and>
               (\<forall>q\<in>set st_prev. containsState h' (prev h' (counter e)) q False) \<and>
               (\<forall>c. c \<noteq> counter e \<longrightarrow> prev h' c = prev h c) \<and>
               State_counter h' = State_counter h \<and>
               hs 0 = h \<and> hs (length st_prev) = h' \<and>
               (\<forall>i<length st_prev. hs (Suc i) =
                  (if containsState (hs i) (prev (hs i) (counter e)) (st_prev ! i) True
                   then hs i
                   else (hs i)\<lparr>prev := (prev (hs i))
                                  (counter e := prev (hs i) (counter e) @ [st_prev ! i])\<rparr>))"
    apply (rule exI [of _ h'])
    apply (rule exI [of _ ys])
    apply (rule exI [of _ ?hs])
    apply (intro conjI)
    apply (rule A)
    apply (rule ys(1))
    apply (rule ys(2))
    apply (rule B)
    apply (rule C)
    apply (rule ys(4))
    apply (rule ys(5))
    apply (rule steps(1))
    apply (rule steps(2))
    apply (rule steps(3))
    done
qed

text \<open>
  The same insertion as the specification words it: a back-pointer is already present
  when its \<open>counter\<close> (the id) is among the counters of the existing \<open>prev\<close> array.
\<close>

definition containsId :: "state list \<Rightarrow> state \<Rightarrow> bool" where
  "containsId sts st = (counter st \<in> set (map counter sts))"

fun merge_by_id :: "state list \<Rightarrow> state \<Rightarrow> heap \<Rightarrow> bool \<Rightarrow> bool \<times> heap" where
  "merge_by_id [] equalState h addedPrev = (addedPrev, h)"
| "merge_by_id (newState # rest) equalState h addedPrev =
     (if \<not> containsId (prev h (counter equalState)) newState
      then merge_by_id rest equalState
             (h\<lparr>prev := (prev h)(counter equalState := prev h (counter equalState) @ [newState])\<rparr>)
             True
      else merge_by_id rest equalState h addedPrev)"

text \<open>
  A chart for the empty input whose only bucket holds the State \<open>ex_equal\<close> (counter 1)
  with the back-pointer \<open>ex_old\<close> (counter 2).  The State \<open>ex_new\<close> (counter 4) equals
  \<open>ex_equal\<close> and has the back-pointer \<open>ex_cand\<close> (counter 3), which equals \<open>ex_old\<close>
  and has, like it, an empty \<open>prev\<close> array.  The State \<open>ex_other\<close> (counter 7) equals
  neither of them.
\<close>

definition ex_item :: "nat \<Rightarrow> nat \<Rightarrow> state" where
  "ex_item dot c = \<lparr>lhs = GrammarSymbol (Symbol ''S'' False), symArray = [Symbol ''0'' True],
                    currentPosition = int dot, originPosition = 0, counter = c\<rparr>"

definition ex_equal :: state where "ex_equal = ex_item 1 1"
definition ex_old :: state where "ex_old = ex_item 0 2"
definition ex_cand :: state where "ex_cand = ex_item 0 3"
definition ex_new :: state where "ex_new = ex_item 1 4"
definition ex_other :: state where "ex_other = ex_item 1 7"

definition ex_ctx :: context_t where
  "ex_ctx = \<lparr>input = [], states = [[ex_equal]]\<rparr>"

definition ex_heap :: heap where
  "ex_heap = \<lparr>State_counter = 4, prev = (\<lambda>c. if c = 1 then [ex_old] else [])\<rparr>"

text \<open>
  Claim C3 as stated fails here: the id of \<open>ex_cand\<close> is not among the ids of the
  existing \<open>prev\<close> array, so the insertion by id appends it and returns true, but
  \<open>addState\<close> appends nothing and returns false.
\<close>

theorem addState_not_by_id:
  "getState ex_ctx ex_new 0 = Some ex_equal \<and>
   \<not> containsId (prev ex_heap (counter ex_equal)) ex_cand \<and>
   fst (merge_by_id [ex_cand] ex_equal ex_heap False) = True \<and>
   addState (ex_new, [ex_cand]) 0 ex_ctx ex_heap = Inr (False, ex_ctx, ex_heap)"
  by (simp add: addState_def getState_def ex_ctx_def ex_heap_def ex_equal_def ex_old_def
        ex_cand_def ex_new_def ex_item_def State_equals_def Symbol_equals_def
        SymArray_equals_def containsState_def prevArraysEqual_def containsId_def)

theorem addState_in_range_witness:
  "getState ex_ctx ex_new 0 = Some ex_equal \<and>
   addState (ex_new, [ex_cand]) 0 ex_ctx ex_heap = Inr (False, ex_ctx, ex_heap) \<and>
   addState (ex_new, [ex_other, ex_old]) 0 ex_ctx ex_heap =
     Inr (True, ex_ctx, ex_heap\<lparr>prev := (prev ex_heap)(1 := [ex_old, ex_other])\<rparr>) \<and>
   getState ex_ctx ex_old 0 = None \<and>
   addState (ex_old, []) 0 ex_ctx ex_heap =
     Inr (True, ex_ctx\<lparr>states := [[ex_equal, ex_old]]\<rparr>,
          ex_heap\<lparr>prev := (prev ex_heap)(2 := [])\<rparr>)"
proof -
  have eq: "getState ex_ctx ex_new 0 = Some ex_equal"
    and none: "getState ex_ctx ex_old 0 = None"
    by (simp_all add: getState_def ex_ctx_def ex_equal_def ex_new_def ex_old_def ex_item_def
          State_equals_def Symbol_equals_def SymArray_equals_def)
  have range: "(0::int) \<le> 0" "0 \<le> int (length (input ex_ctx))"
    "nat 0 < length (states ex_ctx)"
    by (simp_all add: ex_ctx_def)
  from eq have eq': "getState ex_ctx ex_new (nat 0) = Some ex_equal" by simp
  have c1: "counter ex_equal = 1" by (simp add: ex_equal_def ex_item_def)
  have old: "prev ex_heap (counter ex_equal) = [ex_old]"
    by (simp add: ex_heap_def ex_equal_def ex_item_def)
  have found: "containsState ex_heap [ex_old] ex_cand True"
    by (simp add: containsState_def State_equals_def Symbol_equals_def SymArray_equals_def
        prevArraysEqual_def ex_old_def ex_cand_def ex_item_def ex_heap_def)
  from addState_in_range [OF range, of ex_new "[ex_cand]" ex_heap, THEN conjunct2,
      rule_format, OF eq']
  obtain h1 ys1 hs1 where
    r1: "addState (ex_new, [ex_cand]) 0 ex_ctx ex_heap = Inr (ys1 \<noteq> [], ex_ctx, h1)"
    and p1: "prev h1 (counter ex_equal) = prev ex_heap (counter ex_equal) @ ys1"
    and s1: "hs1 0 = ex_heap" "hs1 (length [ex_cand]) = h1"
      "\<forall>i<length [ex_cand]. hs1 (Suc i) =
         (if containsState (hs1 i) (prev (hs1 i) (counter ex_equal)) ([ex_cand] ! i) True
          then hs1 i
          else (hs1 i)\<lparr>prev := (prev (hs1 i))
                  (counter ex_equal := prev (hs1 i) (counter ex_equal) @ [[ex_cand] ! i])\<rparr>)"
    by blast
  from s1(3) have "hs1 (Suc 0) =
         (if containsState (hs1 0) (prev (hs1 0) (counter ex_equal)) ex_cand True
          then hs1 0
          else (hs1 0)\<lparr>prev := (prev (hs1 0))
                  (counter ex_equal := prev (hs1 0) (counter ex_equal) @ [ex_cand])\<rparr>)"
    by simp
  with found have "hs1 (Suc 0) = ex_heap" by (simp add: s1(1) old)
  with s1(2) have h1: "h1 = ex_heap" by simp
  with p1 have "ys1 = []" by simp
  with r1 h1
  have first: "addState (ex_new, [ex_cand]) 0 ex_ctx ex_heap = Inr (False, ex_ctx, ex_heap)"
    by simp
  let ?h = "ex_heap\<lparr>prev := (prev ex_heap)(counter ex_equal := [ex_old, ex_other])\<rparr>"
  have nf: "\<not> containsState ex_heap [ex_old] ex_other True"
    by (simp add: containsState_def State_equals_def ex_old_def ex_other_def ex_item_def)
  have f2: "containsState ?h [ex_old, ex_other] ex_old True"
    by (rule containsState_member) simp
  from addState_in_range [OF range, of ex_new "[ex_other, ex_old]" ex_heap, THEN conjunct2,
      rule_format, OF eq']
  obtain h2 ys2 hs2 where
    r2: "addState (ex_new, [ex_other, ex_old]) 0 ex_ctx ex_heap = Inr (ys2 \<noteq> [], ex_ctx, h2)"
    and p2: "prev h2 (counter ex_equal) = prev ex_heap (counter ex_equal) @ ys2"
    and s2: "hs2 0 = ex_heap" "hs2 (length [ex_other, ex_old]) = h2"
      "\<forall>i<length [ex_other, ex_old]. hs2 (Suc i) =
         (if containsState (hs2 i) (prev (hs2 i) (counter ex_equal)) ([ex_other, ex_old] ! i) True
          then hs2 i
          else (hs2 i)\<lparr>prev := (prev (hs2 i))
                  (counter ex_equal :=
                     prev (hs2 i) (counter ex_equal) @ [[ex_other, ex_old] ! i])\<rparr>)"
    by blast
  from s2(3) have "hs2 (Suc 0) =
         (if containsState (hs2 0) (prev (hs2 0) (counter ex_equal)) ex_other True
          then hs2 0
          else (hs2 0)\<lparr>prev := (prev (hs2 0))
                  (counter ex_equal := prev (hs2 0) (counter ex_equal) @ [ex_other])\<rparr>)"
    by simp
  with nf have one: "hs2 (Suc 0) = ?h" by (simp add: s2(1) old)
  from s2(3) have "hs2 (Suc (Suc 0)) =
         (if containsState (hs2 (Suc 0)) (prev (hs2 (Suc 0)) (counter ex_equal)) ex_old True
          then hs2 (Suc 0)
          else (hs2 (Suc 0))\<lparr>prev := (prev (hs2 (Suc 0)))
                  (counter ex_equal := prev (hs2 (Suc 0)) (counter ex_equal) @ [ex_old])\<rparr>)"
    by simp
  with f2 have "hs2 (Suc (Suc 0)) = ?h" by (simp add: one)
  with s2(2) have h2: "h2 = ?h" by simp
  with p2 have "ys2 = [ex_other]" by (simp add: old)
  with r2 h2
  have second: "addState (ex_new, [ex_other, ex_old]) 0 ex_ctx ex_heap =
     Inr (True, ex_ctx, ex_heap\<lparr>prev := (prev ex_heap)(1 := [ex_old, ex_other])\<rparr>)"
    by (simp add: c1)
  from addState_in_range [OF range, of ex_old "[]" ex_heap] none
  have third: "addState (ex_old, []) 0 ex_ctx ex_heap =
     Inr (True, ex_ctx\<lparr>states := [[ex_equal, ex_old]]\<rparr>,
          ex_heap\<lparr>prev := (prev ex_heap)(2 := [])\<rparr>)"
    by (simp add: ex_ctx_def ex_old_def ex_item_def)
  from eq first second none third show ?thesis by blast
qed

section \<open>Items and the Earley sets\<close>

type_synonym item = "symbol \<times> symArray \<times> int \<times> nat"

definition key :: "state \<Rightarrow> item" where
  "key s = (deref (lhs s), symArray s, currentPosition s, originPosition s)"

definition advanced :: "item \<Rightarrow> item" where
  "advanced k = (case k of (l, a, d, r) \<Rightarrow> (l, a, d + 1, r))"

definition start_item :: "grammar \<Rightarrow> item" where
  "start_item g = (deref START_LHS, [startSymbol g], 0, 0)"

inductive earley :: "grammar \<Rightarrow> string \<Rightarrow> nat \<Rightarrow> item \<Rightarrow> bool" for g inp where
  init: "earley g inp 0 (start_item g)"
| predict:
    "earley g inp i (l, a, d, r) \<Longrightarrow> symbolAt a d = Some X \<Longrightarrow> \<not> isTerminal X \<Longrightarrow>
     map_of (productions g) (ch X) = Some p \<Longrightarrow> alt \<in> set (rhs p) \<Longrightarrow>
     earley g inp i (X, alt, 0, i)"
| complete:
    "earley g inp i (l, a, int (length a), r) \<Longrightarrow> earley g inp r (l', a', d', r') \<Longrightarrow>
     symbolAt a' d' = Some l \<Longrightarrow>
     earley g inp i (l', a', d' + 1, r')"
| scan:
    "earley g inp i (l, a, d, r) \<Longrightarrow> symbolAt a d = Some X \<Longrightarrow> isTerminal X \<Longrightarrow>
     charAt inp i = Some (ch X) \<Longrightarrow>
     earley g inp (i + 1) (l, a, d + 1, r)"

definition symArrays :: "grammar \<Rightarrow> symArray set" where
  "symArrays g = insert [startSymbol g] (\<Union>p\<in>snd ` set (productions g). set (rhs p))"

definition items :: "grammar \<Rightarrow> nat \<Rightarrow> item set" where
  "items g N =
     (insert (deref START_LHS) (\<Union>b\<in>symArrays g. set b)) \<times>
     (\<Union>a\<in>symArrays g. {a} \<times> ({0..int (length a)} \<times> {..N}))"

definition wf_grammar :: "grammar \<Rightarrow> bool" where
  "wf_grammar g =
     list_all (\<lambda>a. list_all (\<lambda>X. isTerminal X \<or> map_of (productions g) (ch X) \<noteq> None) a)
       ([startSymbol g] # concat (map (\<lambda>kp. rhs (snd kp)) (productions g)))"

lemma Symbol_equals_eq: "Symbol_equals a b \<longleftrightarrow> a = b"
  by (auto simp: Symbol_equals_def)

lemma SymArray_equals_eq: "SymArray_equals a b \<longleftrightarrow> a = b"
proof -
  have "Symbol_equals = (=)" by (intro ext) (simp add: Symbol_equals_eq)
  then show ?thesis by (auto simp: SymArray_equals_def list_all2_eq [symmetric])
qed

lemma State_equals_key: "State_equals a b \<longleftrightarrow> key a = key b"
  by (simp add: State_equals_def key_def Symbol_equals_eq SymArray_equals_eq)

lemma finite_symArrays: "finite (symArrays g)"
  by (simp add: symArrays_def)

lemma finite_items: "finite (items g N)"
  by (simp add: items_def finite_symArrays)

lemma symbolAt_Some: "symbolAt a d = Some X \<Longrightarrow> 0 \<le> d \<and> d < int (length a) \<and> X \<in> set a"
  by (auto simp: symbolAt_def split: if_splits)

lemma map_of_symArrays:
  "map_of (productions g) c = Some p \<Longrightarrow> alt \<in> set (rhs p) \<Longrightarrow> alt \<in> symArrays g"
  by (force simp: symArrays_def dest: map_of_SomeD)

lemma start_in_symArrays: "[startSymbol g] \<in> symArrays g"
  by (simp add: symArrays_def)

lemma charAt_Some: "charAt inp i = Some c \<Longrightarrow> i < length inp"
  by (simp add: charAt_def split: if_splits)

lemma earley_items:
  "earley g inp i k \<Longrightarrow>
     i \<le> length inp \<and> k \<in> items g (length inp) \<and> snd (snd (snd k)) \<le> i"
proof (induction rule: earley.induct)
  case init
  then show ?case by (simp add: start_item_def items_def start_in_symArrays)
next
  case (predict i l a d r X p alt)
  from predict.IH have "a \<in> symArrays g" by (auto simp: items_def)
  moreover from predict.hyps have "X \<in> set a" by (auto dest: symbolAt_Some)
  moreover from predict.hyps have "alt \<in> symArrays g" by (auto intro: map_of_symArrays)
  ultimately show ?case using predict.IH by (auto simp: items_def)
next
  case (complete i l a r l' a' d' r')
  from complete.hyps have "0 \<le> d' \<and> d' < int (length a')" by (auto dest: symbolAt_Some)
  with complete.IH show ?case by (auto simp: items_def)
next
  case (scan i l a d r X)
  from scan.hyps have "0 \<le> d \<and> d < int (length a)" "i < length inp"
    by (auto dest: symbolAt_Some charAt_Some)
  with scan.IH show ?case by (auto simp: items_def)
qed

section \<open>The invariant of the chart\<close>

definition start_fields :: "grammar \<Rightarrow> symbol_ref \<Rightarrow> symArray \<Rightarrow> nat \<Rightarrow> bool" where
  "start_fields g l a r \<longleftrightarrow>
     (l = START_LHS \<longrightarrow> a = [startSymbol g] \<and> r = 0) \<and>
     (deref l = deref START_LHS \<and> a = [startSymbol g] \<and> r = 0 \<longrightarrow> l = START_LHS)"

definition start_ok :: "grammar \<Rightarrow> state \<Rightarrow> bool" where
  "start_ok g s = start_fields g (lhs s) (symArray s) (originPosition s)"

definition present :: "context_t \<Rightarrow> nat \<Rightarrow> item \<Rightarrow> bool" where
  "present ctx i k \<longleftrightarrow> (\<exists>e\<in>set (states ctx ! i). key e = k)"

definition chart_inv :: "grammar \<Rightarrow> context_t \<Rightarrow> heap \<Rightarrow> bool" where
  "chart_inv g ctx h \<longleftrightarrow>
     length (states ctx) = length (input ctx) + 1 \<and>
     (\<forall>i<length (states ctx).
        distinct (map key (states ctx ! i)) \<and>
        (\<forall>s\<in>set (states ctx ! i).
           earley g (input ctx) i (key s) \<and> counter s \<le> State_counter h \<and> start_ok g s)) \<and>
     (\<exists>s0\<in>set (states ctx ! 0). lhs s0 = START_LHS \<and> key s0 = start_item g)"

definition frame :: "nat set \<Rightarrow> context_t \<Rightarrow> context_t \<Rightarrow> bool" where
  "frame I ctx ctx' \<longleftrightarrow>
     input ctx' = input ctx \<and> length (states ctx') = length (states ctx) \<and>
     (\<forall>k. prefix (states ctx ! k) (states ctx' ! k)) \<and>
     (\<forall>k. k \<notin> I \<longrightarrow> states ctx' ! k = states ctx ! k)"

lemma frame_refl: "frame I ctx ctx"
  by (simp add: frame_def)

lemma frame_trans: "frame I a b \<Longrightarrow> frame J b c \<Longrightarrow> frame (I \<union> J) a c"
  by (auto simp: frame_def intro: prefix_order.trans)

lemma frame_mono: "frame I a b \<Longrightarrow> I \<subseteq> J \<Longrightarrow> frame J a b"
  by (auto simp: frame_def)

lemma frame_set: "frame I a b \<Longrightarrow> set (states a ! k) \<subseteq> set (states b ! k)"
  by (auto simp: frame_def dest: set_mono_prefix)

lemma frame_present: "frame I a b \<Longrightarrow> present a k it \<Longrightarrow> present b k it"
  using frame_set by (fastforce simp: present_def)

lemma frame_length: "frame I a b \<Longrightarrow> length (states a ! k) \<le> length (states b ! k)"
  by (auto simp: frame_def dest: prefix_length_le)

lemma frame_nth:
  assumes "frame I a b" "j < length (states a ! k)"
  shows "states b ! k ! j = states a ! k ! j"
proof -
  from assms(1) obtain zs where "states b ! k = states a ! k @ zs"
    by (auto simp: frame_def prefix_def)
  with assms(2) show ?thesis by (simp add: nth_append)
qed

section \<open>Insertion keeps the invariant\<close>

lemma getState_key: "getState ctx st i = find (\<lambda>x. key x = key st) (states ctx ! i)"
  by (simp add: getState_def State_equals_key)

lemma addState_cases:
  assumes "idx < length (states ctx)" "length (states ctx) = length (input ctx) + 1"
  shows "addState (st, pv) (int idx) ctx h =
     (case find (\<lambda>x. key x = key st) (states ctx ! idx) of
        None \<Rightarrow> Inr (True, ctx\<lparr>states := (states ctx)[idx := states ctx ! idx @ [st]]\<rparr>,
                     h\<lparr>prev := (prev h)(counter st := pv)\<rparr>)
      | Some e \<Rightarrow> (case addState_merge pv e h False of (a, h') \<Rightarrow> Inr (a, ctx, h')))"
  using assms by (simp add: addState_def getState_key cong: option.case_cong)

lemma addState_merge_counter:
  "addState_merge pv e h a = (a', h') \<Longrightarrow> State_counter h' = State_counter h"
  by (induction pv arbitrary: h a) (auto split: if_splits)

lemma addState_merge_flag: "addState_merge pv e h a = (a', h') \<Longrightarrow> a \<Longrightarrow> a'"
  by (induction pv arbitrary: h a) (auto split: if_splits)

lemma chart_inv_counter:
  "chart_inv g ctx h \<Longrightarrow> State_counter h \<le> State_counter h' \<Longrightarrow> chart_inv g ctx h'"
  by (fastforce simp: chart_inv_def)

lemma addState_inv:
  assumes inv: "chart_inv g ctx h"
    and idx: "idx < length (states ctx)"
    and cnt: "counter st \<le> State_counter h"
    and ear: "earley g (input ctx) idx (key st)"
    and ok: "start_ok g st \<or> (key st = start_item g \<and> idx = 0)"
  shows "\<exists>added ctx' h'. addState (st, pv) (int idx) ctx h = Inr (added, ctx', h') \<and>
           chart_inv g ctx' h' \<and> frame {idx} ctx ctx' \<and> present ctx' idx (key st) \<and>
           (\<not> added \<longrightarrow> ctx' = ctx) \<and> State_counter h' = State_counter h"
proof (cases "find (\<lambda>x. key x = key st) (states ctx ! idx)")
  case None
  let ?ctx = "ctx\<lparr>states := (states ctx)[idx := states ctx ! idx @ [st]]\<rparr>"
  let ?h = "h\<lparr>prev := (prev h)(counter st := pv)\<rparr>"
  from inv have len: "length (states ctx) = length (input ctx) + 1"
    by (simp add: chart_inv_def)
  from None have new: "\<forall>x\<in>set (states ctx ! idx). key x \<noteq> key st"
    by (simp add: find_None_iff)
  have ok': "start_ok g st"
  proof (rule disjE [OF ok])
    assume "key st = start_item g \<and> idx = 0"
    with inv new show ?thesis by (auto simp: chart_inv_def)
  qed
  have res: "addState (st, pv) (int idx) ctx h = Inr (True, ?ctx, ?h)"
    using None by (simp add: addState_cases [OF idx len])
  have nth: "(states ctx)[idx := states ctx ! idx @ [st]] ! k =
      (if k = idx then states ctx ! idx @ [st] else states ctx ! k)" for k
    using idx by (simp add: nth_list_update)
  have "chart_inv g ?ctx ?h"
    unfolding chart_inv_def
  proof (intro conjI allI impI)
    show "length (states ?ctx) = length (input ?ctx) + 1" using len by simp
  next
    fix i assume "i < length (states ?ctx)"
    with inv new show "distinct (map key (states ?ctx ! i))"
      by (auto simp: nth chart_inv_def)
  next
    fix i assume i: "i < length (states ?ctx)"
    show "\<forall>s\<in>set (states ?ctx ! i).
            earley g (input ?ctx) i (key s) \<and> counter s \<le> State_counter ?h \<and> start_ok g s"
      using inv i ear cnt ok' by (auto simp: nth chart_inv_def)
  next
    from inv obtain s0 where "s0 \<in> set (states ctx ! 0)" "lhs s0 = START_LHS"
      "key s0 = start_item g" by (auto simp: chart_inv_def)
    then show "\<exists>s0\<in>set (states ?ctx ! 0). lhs s0 = START_LHS \<and> key s0 = start_item g"
      by (auto simp: nth)
  qed
  moreover have "frame {idx} ctx ?ctx" by (auto simp: frame_def nth)
  moreover have "present ?ctx idx (key st)" by (auto simp: present_def nth)
  ultimately show ?thesis using res by auto
next
  case (Some e)
  from inv have len: "length (states ctx) = length (input ctx) + 1"
    by (simp add: chart_inv_def)
  obtain a h' where m: "addState_merge pv e h False = (a, h')"
    by (cases "addState_merge pv e h False")
  have res: "addState (st, pv) (int idx) ctx h = Inr (a, ctx, h')"
    using Some m by (simp add: addState_cases [OF idx len])
  from Some have "e \<in> set (states ctx ! idx)" "key e = key st"
    by (auto simp: find_Some_iff)
  then have "present ctx idx (key st)" by (auto simp: present_def)
  moreover from inv addState_merge_counter [OF m] have "chart_inv g ctx h'"
    by (auto intro: chart_inv_counter)
  ultimately show ?thesis using res addState_merge_counter [OF m] by (simp add: frame_refl)
qed

section \<open>Progress of the closure\<close>

definition links :: "heap \<Rightarrow> state list \<Rightarrow> nat" where
  "links h b = sum_list (map (\<lambda>x. card (set (prev h (counter x)) \<inter> set b)) b)"

definition progress :: "context_t \<Rightarrow> heap \<Rightarrow> nat \<Rightarrow> nat" where
  "progress ctx h i = length (states ctx ! i) + links h (states ctx ! i)"

definition bound :: "grammar \<Rightarrow> nat \<Rightarrow> nat" where
  "bound g N = card (items g N) + card (items g N) * card (items g N)"

lemma sum_list_strict:
  fixes f g :: "'a \<Rightarrow> nat"
  assumes "\<forall>x\<in>set b. f x \<le> g x" "e \<in> set b" "f e < g e"
  shows "sum_list (map f b) < sum_list (map g b)"
  using assms
proof (induction b)
  case Nil
  then show ?case by simp
next
  case (Cons x b)
  have le: "sum_list (map f b) \<le> sum_list (map g b)"
    using Cons.prems(1) by (intro sum_list_mono) simp
  show ?case
  proof (cases "e = x")
    case True
    with Cons.prems le show ?thesis by simp
  next
    case False
    with Cons.prems have "e \<in> set b" by simp
    with Cons.IH Cons.prems have "sum_list (map f b) < sum_list (map g b)" by simp
    moreover from Cons.prems have "f x \<le> g x" by simp
    ultimately show ?thesis by simp
  qed
qed

lemma sum_list_bounded:
  fixes f :: "'a \<Rightarrow> nat"
  shows "\<forall>x\<in>set b. f x \<le> m \<Longrightarrow> sum_list (map f b) \<le> length b * m"
  by (induction b) auto

lemma links_push:
  assumes q: "q \<in> set b" and e: "e \<in> set b" and new: "q \<notin> set (prev h (counter e))"
  shows "links h b
         < links (h\<lparr>prev := (prev h)(counter e := prev h (counter e) @ [q])\<rparr>) b"
  unfolding links_def
proof (rule sum_list_strict [where e = e])
  show "e \<in> set b" by fact
  have "card (set (prev h (counter e)) \<inter> set b)
        < card (insert q (set (prev h (counter e)) \<inter> set b))"
    using new by simp
  also have "insert q (set (prev h (counter e)) \<inter> set b)
        = set (prev h (counter e) @ [q]) \<inter> set b"
    using q by auto
  finally show "card (set (prev h (counter e)) \<inter> set b)
        < card (set (prev (h\<lparr>prev := (prev h)(counter e := prev h (counter e) @ [q])\<rparr>)
                      (counter e)) \<inter> set b)"
    by simp
  show "\<forall>x\<in>set b. card (set (prev h (counter x)) \<inter> set b)
        \<le> card (set (prev (h\<lparr>prev := (prev h)(counter e := prev h (counter e) @ [q])\<rparr>)
                      (counter x)) \<inter> set b)"
    by (auto intro!: card_mono)
qed

lemma merge_progress:
  assumes "e \<in> set b" "set pv \<subseteq> set b" "addState_merge pv e h a = (a', h')"
  shows "links h b \<le> links h' b \<and> (a' \<longrightarrow> a \<or> links h b < links h' b)"
  using assms(2,3)
proof (induction pv arbitrary: h a)
  case Nil
  then show ?case by simp
next
  case (Cons q rest)
  show ?case
  proof (cases "containsState h (prev h (counter e)) q True")
    case True
    with Cons.prems have "addState_merge rest e h a = (a', h')" by simp
    with Cons.IH Cons.prems(1) show ?thesis by simp
  next
    case False
    let ?h = "h\<lparr>prev := (prev h)(counter e := prev h (counter e) @ [q])\<rparr>"
    from False have "q \<notin> set (prev h (counter e))"
      by (auto dest: containsState_member)
    with Cons.prems(1) assms(1) have "links h b < links ?h b"
      by (intro links_push) auto
    moreover from False Cons.prems have "addState_merge rest e ?h True = (a', h')" by simp
    with Cons.IH [of ?h True] Cons.prems(1) have "links ?h b \<le> links h' b" by simp
    ultimately show ?thesis by simp
  qed
qed

lemma links_extend:
  assumes "\<forall>x\<in>set b. counter x \<noteq> c"
  shows "links h b \<le> links (h\<lparr>prev := (prev h)(c := pv)\<rparr>) (b @ [st])"
proof -
  have "links h b \<le> sum_list (map (\<lambda>x. card (set (prev (h\<lparr>prev := (prev h)(c := pv)\<rparr>)
            (counter x)) \<inter> set (b @ [st]))) b)"
    unfolding links_def using assms by (intro sum_list_mono card_mono) auto
  then show ?thesis by (simp add: links_def)
qed

lemma addState_progress:
  assumes inv: "chart_inv g ctx h"
    and idx: "idx < length (states ctx)"
    and fresh: "\<forall>s\<in>set (states ctx ! idx). counter s \<noteq> counter st"
    and sub: "set pv \<subseteq> set (states ctx ! idx)"
    and res: "addState (st, pv) (int idx) ctx h = Inr (added, ctx', h')"
  shows "progress ctx h idx \<le> progress ctx' h' idx \<and>
         (added \<longrightarrow> progress ctx h idx < progress ctx' h' idx)"
proof (cases "find (\<lambda>x. key x = key st) (states ctx ! idx)")
  case None
  from inv have len: "length (states ctx) = length (input ctx) + 1"
    by (simp add: chart_inv_def)
  from None res have "ctx' = ctx\<lparr>states := (states ctx)[idx := states ctx ! idx @ [st]]\<rparr>"
    "h' = h\<lparr>prev := (prev h)(counter st := pv)\<rparr>"
    by (simp_all add: addState_cases [OF idx len])
  with idx links_extend [OF fresh, of h pv st] show ?thesis
    by (simp add: progress_def)
next
  case (Some e)
  from inv have len: "length (states ctx) = length (input ctx) + 1"
    by (simp add: chart_inv_def)
  from Some res have m: "addState_merge pv e h False = (added, h')" and c: "ctx' = ctx"
    by (auto simp: addState_cases [OF idx len] split: prod.splits)
  from Some have "e \<in> set (states ctx ! idx)" by (auto simp: find_Some_iff)
  from merge_progress [OF this sub m] c show ?thesis by (simp add: progress_def)
qed

lemma chart_inv_member:
  assumes "chart_inv g ctx h" "i < length (states ctx)" "s \<in> set (states ctx ! i)"
  shows "earley g (input ctx) i (key s)" "counter s \<le> State_counter h" "start_ok g s"
    "originPosition s \<le> i" "key s \<in> items g (length (input ctx))"
proof -
  from assms show e: "earley g (input ctx) i (key s)" and "counter s \<le> State_counter h"
    and "start_ok g s"
    by (auto simp: chart_inv_def)
  from earley_items [OF e] show "originPosition s \<le> i"
    "key s \<in> items g (length (input ctx))"
    by (simp_all add: key_def)
qed

lemma chart_inv_length: "chart_inv g ctx h \<Longrightarrow> length (states ctx) = length (input ctx) + 1"
  by (simp add: chart_inv_def)

lemma bucket_length_le:
  assumes "chart_inv g ctx h" "i < length (states ctx)"
  shows "length (states ctx ! i) \<le> card (items g (length (input ctx)))"
proof -
  from assms have d: "distinct (map key (states ctx ! i))"
    by (auto simp: chart_inv_def)
  from assms have sub: "key ` set (states ctx ! i) \<subseteq> items g (length (input ctx))"
    by (auto dest: chart_inv_member(5))
  from d have "length (states ctx ! i) = card (key ` set (states ctx ! i))"
    by (metis distinct_card length_map set_map)
  also from sub have "\<dots> \<le> card (items g (length (input ctx)))"
    by (intro card_mono finite_items)
  finally show ?thesis .
qed

lemma progress_le_bound:
  assumes "chart_inv g ctx h" "i < length (states ctx)"
  shows "progress ctx h i \<le> bound g (length (input ctx))"
proof -
  let ?b = "states ctx ! i" and ?c = "card (items g (length (input ctx)))"
  have len: "length ?b \<le> ?c" using assms by (rule bucket_length_le)
  have "links h ?b \<le> length ?b * length ?b"
    unfolding links_def
  proof (rule sum_list_bounded, rule ballI)
    fix x
    have "card (set (prev h (counter x)) \<inter> set ?b) \<le> card (set ?b)"
      by (intro card_mono) auto
    also have "\<dots> \<le> length ?b" by (rule card_length)
    finally show "card (set (prev h (counter x)) \<inter> set ?b) \<le> length ?b" .
  qed
  also from len have "\<dots> \<le> ?c * ?c" by (intro mult_le_mono)
  finally show ?thesis using len by (simp add: progress_def bound_def)
qed

section \<open>The loops of the closure\<close>

definition step_post ::
  "grammar \<Rightarrow> nat \<Rightarrow> bool \<Rightarrow> context_t \<Rightarrow> heap \<Rightarrow> bool \<times> context_t \<times> heap \<Rightarrow> bool" where
  "step_post g i flag ctx h res =
     (case res of (flag', ctx', h') \<Rightarrow>
        chart_inv g ctx' h' \<and> frame {i} ctx ctx' \<and> State_counter h \<le> State_counter h' \<and>
        progress ctx h i \<le> progress ctx' h' i \<and>
        (flag' \<longrightarrow> flag \<or> progress ctx h i < progress ctx' h' i) \<and>
        (flag \<longrightarrow> flag') \<and> (\<not> flag' \<longrightarrow> ctx' = ctx))"

lemma step_post_refl: "chart_inv g ctx h \<Longrightarrow> step_post g i flag ctx h (flag, ctx, h)"
  by (simp add: step_post_def frame_refl)

lemma step_post_trans:
  assumes "step_post g i flag ctx h (f1, c1, h1)" "step_post g i f1 c1 h1 res"
  shows "step_post g i flag ctx h res"
proof -
  obtain f2 c2 h2 where res: "res = (f2, c2, h2)" by (cases res)
  from assms have "frame {i} ctx c1" "frame {i} c1 c2"
    unfolding res step_post_def by simp_all
  from frame_trans [OF this] have fr: "frame {i} ctx c2" by simp
  from assms have "(\<not> f2 \<longrightarrow> c2 = ctx)" "f2 \<longrightarrow> flag \<or> progress ctx h i < progress c2 h2 i"
    "progress ctx h i \<le> progress c2 h2 i"
    unfolding res step_post_def by auto
  with assms fr show ?thesis
    unfolding res step_post_def by simp
qed

lemma step_postD:
  assumes "step_post g i flag ctx h res"
  shows "chart_inv g (fst (snd res)) (snd (snd res))" "frame {i} ctx (fst (snd res))"
    "State_counter h \<le> State_counter (snd (snd res))"
    "flag \<longrightarrow> fst res" "\<not> fst res \<longrightarrow> fst (snd res) = ctx"
    "fst res \<longrightarrow> flag \<or> progress ctx h i < progress (fst (snd res)) (snd (snd res)) i"
  using assms by (auto simp: step_post_def split: prod.splits)

lemma State_success:
  assumes "0 \<le> d" "d \<le> int (length a)"
  shows "State l a d r pv h =
     Inr ((\<lparr>lhs = l, symArray = a, currentPosition = d, originPosition = r,
            counter = State_counter h + 1\<rparr>, pv),
          h\<lparr>State_counter := State_counter h + 1\<rparr>)"
  using assms by (simp add: State_def Let_def)

text \<open>Making a State and adding it to the bucket at \<open>idx\<close>.\<close>

lemma new_state_added:
  assumes inv: "chart_inv g ctx h"
    and idx: "idx < length (states ctx)"
    and d: "0 \<le> d" "d \<le> int (length a)"
    and ear: "earley g (input ctx) idx (deref l, a, d, r)"
    and ok: "start_ok g \<lparr>lhs = l, symArray = a, currentPosition = d, originPosition = r,
                          counter = State_counter h + 1\<rparr> \<or>
             ((deref l, a, d, r) = start_item g \<and> idx = 0)"
    and pv: "set pv \<subseteq> set (states ctx ! idx)"
  shows "\<exists>new h1 added ctx' h'.
           State l a d r pv h = Inr (new, h1) \<and>
           addState new (int idx) ctx h1 = Inr (added, ctx', h') \<and>
           step_post g idx flag ctx h (flag \<or> added, ctx', h') \<and>
           present ctx' idx (deref l, a, d, r)"
proof -
  define st where "st = \<lparr>lhs = l, symArray = a, currentPosition = d, originPosition = r,
              counter = State_counter h + 1\<rparr>"
  define h1 where "h1 = h\<lparr>State_counter := State_counter h + 1\<rparr>"
  have key: "key st = (deref l, a, d, r)" by (simp add: key_def st_def)
  have S: "State l a d r pv h = Inr ((st, pv), h1)"
    unfolding st_def h1_def using d by (rule State_success)
  have inv1: "chart_inv g ctx h1"
    using inv by (rule chart_inv_counter) (simp add: h1_def)
  have cnt1: "counter st \<le> State_counter h1" by (simp add: st_def h1_def)
  have ear1: "earley g (input ctx) idx (key st)" using ear key by simp
  have ok1: "start_ok g st \<or> (key st = start_item g \<and> idx = 0)"
    using ok key unfolding st_def by simp
  from addState_inv [OF inv1 idx cnt1 ear1 ok1, of pv]
  obtain added ctx' h' where
    A: "addState (st, pv) (int idx) ctx h1 = Inr (added, ctx', h')"
    and inv': "chart_inv g ctx' h'" and fr: "frame {idx} ctx ctx'"
    and pr: "present ctx' idx (key st)" and same: "\<not> added \<longrightarrow> ctx' = ctx"
    and cnt: "State_counter h' = State_counter h1"
    by blast
  have fresh: "\<forall>s\<in>set (states ctx ! idx). counter s \<noteq> counter st"
  proof
    fix s assume "s \<in> set (states ctx ! idx)"
    with inv idx have "counter s \<le> State_counter h" by (rule chart_inv_member)
    then show "counter s \<noteq> counter st" by (simp add: st_def)
  qed
  have same_prev: "progress ctx h1 idx = progress ctx h idx"
    by (simp add: progress_def links_def h1_def)
  from addState_progress [OF inv1 idx fresh pv A] same_prev
  have pg: "progress ctx h idx \<le> progress ctx' h' idx"
    "added \<longrightarrow> progress ctx h idx < progress ctx' h' idx"
    by simp_all
  from cnt have "State_counter h \<le> State_counter h'" by (simp add: h1_def)
  with inv' fr same pg have sp: "step_post g idx flag ctx h (flag \<or> added, ctx', h')"
    unfolding step_post_def by simp
  from pr key have pr': "present ctx' idx (deref l, a, d, r)" by simp
  from S A sp pr' show ?thesis by blast
qed

lemma predict_loop_post:
  assumes "chart_inv g ctx h" "i < length (states ctx)" "st \<in> set (states ctx ! i)"
    and "\<forall>alt\<in>set alts. earley g (input ctx) i (X, alt, 0, i)"
  shows "\<exists>res. predict_loop alts X i st flag ctx h = Inr res \<and>
           step_post g i flag ctx h res \<and>
           (\<forall>alt\<in>set alts. present (fst (snd res)) i (X, alt, 0, i))"
  using assms
proof (induction alts arbitrary: flag ctx h)
  case Nil
  then show ?case by (simp add: step_post_refl)
next
  case (Cons alt alts)
  have ok: "start_ok g \<lparr>lhs = GrammarSymbol X, symArray = alt, currentPosition = 0,
                         originPosition = i, counter = State_counter h + 1\<rparr> \<or>
            ((deref (GrammarSymbol X), alt, 0, i) = start_item g \<and> i = 0)"
    by (cases "i = 0") (simp_all add: start_ok_def start_fields_def start_item_def)
  have ear: "earley g (input ctx) i (deref (GrammarSymbol X), alt, 0, i)"
    using Cons.prems(4) by simp
  have pv: "set [st] \<subseteq> set (states ctx ! i)" using Cons.prems(3) by simp
  have d: "(0::int) \<le> 0" "0 \<le> int (length alt)" by simp_all
  from new_state_added [OF Cons.prems(1,2) d ear ok pv, of flag]
  obtain new h1 added ctx' h' where
    S: "State (GrammarSymbol X) alt 0 i [st] h = Inr (new, h1)"
    and A: "addState new (int i) ctx h1 = Inr (added, ctx', h')"
    and post: "step_post g i flag ctx h (flag \<or> added, ctx', h')"
    and pr: "present ctx' i (deref (GrammarSymbol X), alt, 0, i)"
    by blast
  from step_postD(1,2) [OF post] have inv': "chart_inv g ctx' h'" and fr: "frame {i} ctx ctx'"
    by simp_all
  from fr have same: "input ctx' = input ctx" "length (states ctx') = length (states ctx)"
    by (simp_all add: frame_def)
  have pre: "i < length (states ctx')" "st \<in> set (states ctx' ! i)"
    "\<forall>alt\<in>set alts. earley g (input ctx') i (X, alt, 0, i)"
    using Cons.prems(2,3,4) same frame_set [OF fr, of i] by auto
  from Cons.IH [OF inv' pre, of "flag \<or> added"] obtain res where
    R: "predict_loop alts X i st (flag \<or> added) ctx' h' = Inr res"
    and post': "step_post g i (flag \<or> added) ctx' h' res"
    and pr': "\<forall>alt\<in>set alts. present (fst (snd res)) i (X, alt, 0, i)"
    by blast
  from step_postD(2) [OF post'] pr have "present (fst (snd res)) i (X, alt, 0, i)"
    by (auto intro: frame_present)
  with pr' have all: "\<forall>a\<in>set (alt # alts). present (fst (snd res)) i (X, a, 0, i)" by simp
  have "predict_loop (alt # alts) X i st flag ctx h = Inr res" using S A R by simp
  with all step_post_trans [OF post post'] show ?case by blast
qed

lemma complete_loop_post:
  assumes "chart_inv g ctx h" "i < length (states ctx)" "st \<in> set (states ctx ! i)"
    and "isComplete st"
    and "\<forall>t\<in>set ts. earley g (input ctx) (originPosition st) (key t) \<and> start_ok g t"
  shows "\<exists>res. complete_loop ts st i flag ctx h = Inr res \<and>
           step_post g i flag ctx h res \<and>
           (\<forall>t\<in>set ts. hasNonterminalNext t (deref (lhs st))
               \<longrightarrow> present (fst (snd res)) i (advanced (key t)))"
  using assms
proof (induction ts arbitrary: flag ctx h)
  case Nil
  then show ?case by (simp add: step_post_refl)
next
  case (Cons t ts)
  have rest: "\<forall>t\<in>set ts. earley g (input ctx) (originPosition st) (key t) \<and> start_ok g t"
    using Cons.prems(5) by simp
  show ?case
  proof (cases "hasNonterminalNext t (deref (lhs st))")
    case False
    from Cons.IH [OF Cons.prems(1-4) rest, of flag] obtain res where
      R: "complete_loop ts st i flag ctx h = Inr res" and post: "step_post g i flag ctx h res"
      and pr: "\<forall>t\<in>set ts. hasNonterminalNext t (deref (lhs st))
               \<longrightarrow> present (fst (snd res)) i (advanced (key t))"
      by blast
    show ?thesis
    proof (intro exI conjI)
      show "complete_loop (t # ts) st i flag ctx h = Inr res" using False R by simp
      show "step_post g i flag ctx h res" by fact
      show "\<forall>u\<in>set (t # ts). hasNonterminalNext u (deref (lhs st))
               \<longrightarrow> present (fst (snd res)) i (advanced (key u))"
        using False pr by simp
    qed
  next
    case True
    then have sym: "symbolAt (symArray t) (currentPosition t) = Some (deref (lhs st))"
      by (cases "symbolAt (symArray t) (currentPosition t)")
         (simp_all add: hasNonterminalNext_def Symbol_equals_eq)
    then have d: "0 \<le> currentPosition t + 1"
      "currentPosition t + 1 \<le> int (length (symArray t))"
      by (auto dest: symbolAt_Some)
    from Cons.prems(1-3) have "earley g (input ctx) i (key st)"
      by (rule chart_inv_member)
    with Cons.prems(4) have
      "earley g (input ctx) i
         (deref (lhs st), symArray st, int (length (symArray st)), originPosition st)"
      by (simp add: key_def isComplete_def)
    moreover from Cons.prems(5) have
      "earley g (input ctx) (originPosition st)
         (deref (lhs t), symArray t, currentPosition t, originPosition t)"
      by (simp add: key_def)
    ultimately have ear: "earley g (input ctx) i
        (deref (lhs t), symArray t, currentPosition t + 1, originPosition t)"
      using sym by (rule earley.complete)
    from Cons.prems(5) have "start_ok g t" by simp
    then have
      ok: "start_ok g \<lparr>lhs = lhs t, symArray = symArray t,
             currentPosition = currentPosition t + 1, originPosition = originPosition t,
             counter = State_counter h + 1\<rparr> \<or>
           ((deref (lhs t), symArray t, currentPosition t + 1, originPosition t) = start_item g
             \<and> i = 0)"
      by (simp add: start_ok_def)
    have pv: "set [st] \<subseteq> set (states ctx ! i)" using Cons.prems(3) by simp
    from new_state_added [OF Cons.prems(1,2) d ear ok pv, of flag]
    obtain new h1 added ctx' h' where
      S: "State (lhs t) (symArray t) (currentPosition t + 1) (originPosition t) [st] h
            = Inr (new, h1)"
      and A: "addState new (int i) ctx h1 = Inr (added, ctx', h')"
      and post: "step_post g i flag ctx h (flag \<or> added, ctx', h')"
      and pr: "present ctx' i
                 (deref (lhs t), symArray t, currentPosition t + 1, originPosition t)"
      by blast
    from step_postD(1,2) [OF post] have inv': "chart_inv g ctx' h'"
      and fr: "frame {i} ctx ctx'"
      by simp_all
    from fr have same: "input ctx' = input ctx" "length (states ctx') = length (states ctx)"
      by (simp_all add: frame_def)
    have pre: "i < length (states ctx')" "st \<in> set (states ctx' ! i)"
      "\<forall>t\<in>set ts. earley g (input ctx') (originPosition st) (key t) \<and> start_ok g t"
      using Cons.prems(2,3) rest same frame_set [OF fr, of i] by (simp_all add: subsetD)
    from Cons.IH [OF inv' pre(1,2) Cons.prems(4) pre(3), of "flag \<or> added"] obtain res where
      R: "complete_loop ts st i (flag \<or> added) ctx' h' = Inr res"
      and post': "step_post g i (flag \<or> added) ctx' h' res"
      and pr': "\<forall>t\<in>set ts. hasNonterminalNext t (deref (lhs st))
                  \<longrightarrow> present (fst (snd res)) i (advanced (key t))"
      by blast
    have adv: "advanced (key t)
        = (deref (lhs t), symArray t, currentPosition t + 1, originPosition t)"
      by (simp add: advanced_def key_def)
    from frame_present [OF step_postD(2) [OF post'] pr]
    have here: "present (fst (snd res)) i (advanced (key t))" by (simp add: adv)
    show ?thesis
    proof (intro exI conjI)
      show "complete_loop (t # ts) st i flag ctx h = Inr res"
        using True S A R by (simp add: getAdvancedState_def)
      show "step_post g i flag ctx h res" using post post' by (rule step_post_trans)
      show "\<forall>u\<in>set (t # ts). hasNonterminalNext u (deref (lhs st))
               \<longrightarrow> present (fst (snd res)) i (advanced (key u))"
        using here pr' by simp
    qed
  qed
qed

section \<open>Examining the States of a bucket\<close>

definition examined :: "grammar \<Rightarrow> nat \<Rightarrow> state \<Rightarrow> context_t \<Rightarrow> context_t \<Rightarrow> bool" where
  "examined g i st ctx ctx' \<longleftrightarrow>
     (\<forall>X p alt. getNextSymbol st = Some X \<longrightarrow> \<not> isTerminal X \<longrightarrow>
        map_of (productions g) (ch X) = Some p \<longrightarrow> alt \<in> set (rhs p) \<longrightarrow>
        present ctx' i (X, alt, 0, i)) \<and>
     (\<forall>t. isComplete st \<longrightarrow> t \<in> set (states ctx ! originPosition st) \<longrightarrow>
        hasNonterminalNext t (deref (lhs st)) \<longrightarrow> present ctx' i (advanced (key t)))"

definition closed_state :: "grammar \<Rightarrow> nat \<Rightarrow> context_t \<Rightarrow> state \<Rightarrow> bool" where
  "closed_state g i ctx st = examined g i st ctx ctx"

definition scanned :: "nat \<Rightarrow> state \<Rightarrow> context_t \<Rightarrow> bool" where
  "scanned i st ctx \<longleftrightarrow>
     (\<forall>X. getNextSymbol st = Some X \<longrightarrow> isTerminal X \<longrightarrow>
        charAt (input ctx) i = Some (ch X) \<longrightarrow> present ctx (i + 1) (advanced (key st)))"

lemma wf_grammarD:
  assumes "wf_grammar g" "a \<in> symArrays g" "X \<in> set a" "\<not> isTerminal X"
  shows "map_of (productions g) (ch X) \<noteq> None"
proof -
  have "set ([startSymbol g] # concat (map (\<lambda>kp. rhs (snd kp)) (productions g)))
        = symArrays g"
    by (auto simp: symArrays_def)
  with assms show ?thesis
    unfolding wf_grammar_def list_all_iff by blast
qed

lemma getNextSymbol_Some:
  "getNextSymbol st = Some X \<Longrightarrow>
     symbolAt (symArray st) (currentPosition st) = Some X \<and> \<not> isComplete st"
  by (simp add: getNextSymbol_def isComplete_def split: if_splits)

lemma getNextSymbol_symbolAt:
  "symbolAt (symArray st) (currentPosition st) = Some X \<Longrightarrow> getNextSymbol st = Some X"
  by (auto simp: getNextSymbol_def dest: symbolAt_Some)

lemma isComplete_getNextSymbol: "isComplete st \<Longrightarrow> getNextSymbol st = None"
  by (simp add: getNextSymbol_def isComplete_def)

lemma symArray_in_grammar:
  assumes "chart_inv g ctx h" "i < length (states ctx)" "st \<in> set (states ctx ! i)"
  shows "symArray st \<in> symArrays g"
  using chart_inv_member(5) [OF assms] by (auto simp: key_def items_def)

lemma completion_post:
  assumes inv: "chart_inv g ctx h" and i: "i < length (states ctx)"
    and st: "st \<in> set (states ctx ! i)" and c: "isComplete st"
  shows "\<exists>res. completion i st flag ctx h = Inr res \<and> step_post g i flag ctx h res \<and>
           examined g i st ctx (fst (snd res))"
proof -
  from chart_inv_member(4) [OF inv i st] i
  have r: "originPosition st < length (states ctx)" by simp
  have ts: "\<forall>t\<in>set (states ctx ! originPosition st).
              earley g (input ctx) (originPosition st) (key t) \<and> start_ok g t"
    using chart_inv_member(1,3) [OF inv r] by blast
  from complete_loop_post [OF inv i st c ts, of flag] obtain res where
    R: "complete_loop (states ctx ! originPosition st) st i flag ctx h = Inr res"
    and post: "step_post g i flag ctx h res"
    and pr: "\<forall>t\<in>set (states ctx ! originPosition st). hasNonterminalNext t (deref (lhs st))
               \<longrightarrow> present (fst (snd res)) i (advanced (key t))"
    by blast
  have "examined g i st ctx (fst (snd res))"
    unfolding examined_def using pr isComplete_getNextSymbol [OF c] by simp
  with R post r show ?thesis by (simp add: completion_def)
qed

lemma examine_post:
  assumes inv: "chart_inv g ctx h" and i: "i < length (states ctx)"
    and st: "st \<in> set (states ctx ! i)"
  shows "(\<exists>e. examine g i st flag ctx h = Inl e \<and> \<not> wf_grammar g) \<or>
         (\<exists>res. examine g i st flag ctx h = Inr res \<and> step_post g i flag ctx h res \<and>
            examined g i st ctx (fst (snd res)))"
proof (cases "getNextSymbol st")
  case None
  show ?thesis
  proof (cases "isComplete st")
    case True
    from completion_post [OF inv i st True, of flag] None True show ?thesis
      by (simp add: examine_def)
  next
    case False
    have "examined g i st ctx ctx" using None False by (simp add: examined_def)
    with None False step_post_refl [OF inv, of i flag] show ?thesis
      by (simp add: examine_def)
  qed
next
  case (Some X)
  from getNextSymbol_Some [OF Some] have sym: "symbolAt (symArray st) (currentPosition st) = Some X"
    and nc: "\<not> isComplete st"
    by simp_all
  show ?thesis
  proof (cases "isTerminal X")
    case True
    have "examined g i st ctx ctx" using Some True nc by (simp add: examined_def)
    with Some True nc step_post_refl [OF inv, of i flag] show ?thesis
      by (simp add: examine_def)
  next
    case False
    show ?thesis
    proof (cases "map_of (productions g) (ch X)")
      case None
      from sym have "X \<in> set (symArray st)" by (auto dest: symbolAt_Some)
      with wf_grammarD [OF _ symArray_in_grammar [OF inv i st] _ False] None
      have "\<not> wf_grammar g" by blast
      with Some False None show ?thesis by (simp add: examine_def prediction_def)
    next
      case (Some p)
      from chart_inv_member(1) [OF inv i st]
      have e: "earley g (input ctx) i
                 (deref (lhs st), symArray st, currentPosition st, originPosition st)"
        by (simp add: key_def)
      have alts: "\<forall>alt\<in>set (rhs p). earley g (input ctx) i (X, alt, 0, i)"
        using earley.predict [OF e sym False Some] by blast
      from predict_loop_post [OF inv i st alts, of flag] obtain res where
        R: "predict_loop (rhs p) X i st flag ctx h = Inr res"
        and post: "step_post g i flag ctx h res"
        and pr: "\<forall>alt\<in>set (rhs p). present (fst (snd res)) i (X, alt, 0, i)"
        by blast
      have "examined g i st ctx (fst (snd res))"
        unfolding examined_def using pr \<open>getNextSymbol st = Some X\<close> Some nc by simp
      with R post \<open>getNextSymbol st = Some X\<close> False Some show ?thesis
        by (simp add: examine_def prediction_def)
    qed
  qed
qed

lemma pass_post:
  assumes "chart_inv g ctx h" "i < length (states ctx)" "set sts \<subseteq> set (states ctx ! i)"
  shows "(\<exists>e. pass g i sts flag ctx h = Inl e \<and> \<not> wf_grammar g) \<or>
         (\<exists>res. pass g i sts flag ctx h = Inr res \<and> step_post g i flag ctx h res \<and>
            (\<not> fst res \<longrightarrow> (\<forall>st\<in>set sts. closed_state g i ctx st)))"
  using assms
proof (induction sts arbitrary: flag ctx h)
  case Nil
  then show ?case by (simp add: step_post_refl)
next
  case (Cons st sts)
  from Cons.prems(3) have st: "st \<in> set (states ctx ! i)"
    and sts: "set sts \<subseteq> set (states ctx ! i)"
    by simp_all
  from examine_post [OF Cons.prems(1,2) st, of flag] show ?case
  proof (elim disjE exE conjE)
    fix e assume "examine g i st flag ctx h = Inl e" "\<not> wf_grammar g"
    then show ?thesis by simp
  next
    fix res1
    assume E: "examine g i st flag ctx h = Inr res1"
      and post1: "step_post g i flag ctx h res1"
      and ex: "examined g i st ctx (fst (snd res1))"
    obtain f1 c1 h1 where res1: "res1 = (f1, c1, h1)" by (cases res1)
    from step_postD(1,2) [OF post1] have inv1: "chart_inv g c1 h1" and fr: "frame {i} ctx c1"
      by (simp_all add: res1)
    have pre: "i < length (states c1)" "set sts \<subseteq> set (states c1 ! i)"
      using Cons.prems(2) sts fr frame_set [OF fr, of i] by (auto simp: frame_def)
    from Cons.IH [OF inv1 pre, of f1] show ?thesis
    proof (elim disjE exE conjE)
      fix e assume "pass g i sts f1 c1 h1 = Inl e" "\<not> wf_grammar g"
      with E res1 show ?thesis by simp
    next
      fix res
      assume P: "pass g i sts f1 c1 h1 = Inr res"
        and post: "step_post g i f1 c1 h1 res"
        and cl: "\<not> fst res \<longrightarrow> (\<forall>st\<in>set sts. closed_state g i c1 st)"
      have "\<not> fst res \<longrightarrow> (\<forall>s\<in>set (st # sts). closed_state g i ctx s)"
      proof
        assume nf: "\<not> fst res"
        with step_postD(4) [OF post] have "\<not> f1" by blast
        with step_postD(5) [OF post1] have "c1 = ctx" by (simp add: res1)
        with nf cl ex show "\<forall>s\<in>set (st # sts). closed_state g i ctx s"
          by (simp add: closed_state_def res1)
      qed
      moreover have "step_post g i flag ctx h res"
        using post1 post unfolding res1 by (rule step_post_trans)
      moreover have "pass g i (st # sts) flag ctx h = Inr res" using E P res1 by simp
      ultimately show ?thesis by blast
    qed
  qed
qed

section \<open>The closure loop ends\<close>

definition closure_post ::
  "grammar \<Rightarrow> nat \<Rightarrow> context_t \<Rightarrow> heap \<Rightarrow> error + context_t \<times> heap \<Rightarrow> bool" where
  "closure_post g i ctx h res =
     (case res of
        Inl e \<Rightarrow> \<not> wf_grammar g
      | Inr (ctx', h') \<Rightarrow>
          chart_inv g ctx' h' \<and> frame {i} ctx ctx' \<and> State_counter h \<le> State_counter h' \<and>
          (\<forall>st\<in>set (states ctx' ! i). closed_state g i ctx' st))"

lemma closure_terminates:
  assumes "chart_inv g ctx h" "i < length (states ctx)"
  shows "\<exists>res. closure g i ctx h = Some res \<and> closure_post g i ctx h res"
  using assms
proof (induction "bound g (length (input ctx)) - progress ctx h i" arbitrary: ctx h
    rule: less_induct)
  case less
  note inv = less.prems(1) and i = less.prems(2)
  from pass_post [OF inv i subset_refl, of False] show ?case
  proof (elim disjE exE conjE)
    fix e assume "pass g i (states ctx ! i) False ctx h = Inl e" and nwf: "\<not> wf_grammar g"
    then have "closure g i ctx h = Some (Inl e)" by (subst closure.simps) simp
    with nwf show ?thesis by (simp add: closure_post_def)
  next
    fix res
    assume P: "pass g i (states ctx ! i) False ctx h = Inr res"
      and post: "step_post g i False ctx h res"
      and cl: "\<not> fst res \<longrightarrow> (\<forall>st\<in>set (states ctx ! i). closed_state g i ctx st)"
    obtain f c1 h1 where res: "res = (f, c1, h1)" by (cases res)
    from step_postD(1,2,3) [OF post] have inv1: "chart_inv g c1 h1"
      and fr: "frame {i} ctx c1" and cnt: "State_counter h \<le> State_counter h1"
      by (simp_all add: res)
    show ?thesis
    proof (cases f)
      case False
      with P res have C: "closure g i ctx h = Some (Inr (c1, h1))"
        by (subst closure.simps) simp
      from False step_postD(5) [OF post] have "c1 = ctx" by (simp add: res)
      with False cl res have "\<forall>st\<in>set (states c1 ! i). closed_state g i c1 st" by simp
      with C inv1 fr cnt show ?thesis by (simp add: closure_post_def)
    next
      case True
      with P res have C: "closure g i ctx h = closure g i c1 h1"
        by (subst closure.simps) simp
      from fr have same: "input c1 = input ctx" "length (states c1) = length (states ctx)"
        by (simp_all add: frame_def)
      from True step_postD(6) [OF post] have "progress ctx h i < progress c1 h1 i"
        by (simp add: res)
      moreover from inv1 i same have "progress c1 h1 i \<le> bound g (length (input ctx))"
        using progress_le_bound [of g c1 h1 i] by simp
      ultimately have "bound g (length (input c1)) - progress c1 h1 i
          < bound g (length (input ctx)) - progress ctx h i"
        using same by simp
      from less.hyps [OF this inv1] i same obtain res' where
        C': "closure g i c1 h1 = Some res'" and post': "closure_post g i c1 h1 res'"
        by auto
      have "closure_post g i ctx h res'"
      proof (cases res')
        case (Inl e)
        with post' show ?thesis by (simp add: closure_post_def)
      next
        case (Inr p)
        obtain c2 h2 where p: "p = (c2, h2)" by (cases p)
        from post' Inr p have "frame {i} c1 c2" by (simp add: closure_post_def)
        from frame_trans [OF fr this] have "frame {i} ctx c2" by simp
        with post' Inr p cnt show ?thesis by (simp add: closure_post_def)
      qed
      with C C' show ?thesis by simp
    qed
  qed
qed

section \<open>Scanning and the loop over a bucket\<close>

lemma new_state_inserted:
  assumes inv: "chart_inv g ctx h"
    and idx: "idx < length (states ctx)"
    and d: "0 \<le> d" "d \<le> int (length a)"
    and ear: "earley g (input ctx) idx (deref l, a, d, r)"
    and ok: "start_fields g l a r"
  shows "\<exists>new h1 added ctx' h'.
           State l a d r pv h = Inr (new, h1) \<and>
           addState new (int idx) ctx h1 = Inr (added, ctx', h') \<and>
           chart_inv g ctx' h' \<and> frame {idx} ctx ctx' \<and>
           State_counter h \<le> State_counter h' \<and>
           present ctx' idx (deref l, a, d, r)"
proof -
  define st where "st = \<lparr>lhs = l, symArray = a, currentPosition = d, originPosition = r,
              counter = State_counter h + 1\<rparr>"
  define h1 where "h1 = h\<lparr>State_counter := State_counter h + 1\<rparr>"
  have key: "key st = (deref l, a, d, r)" by (simp add: key_def st_def)
  have S: "State l a d r pv h = Inr ((st, pv), h1)"
    unfolding st_def h1_def using d by (rule State_success)
  have inv1: "chart_inv g ctx h1"
    using inv by (rule chart_inv_counter) (simp add: h1_def)
  have cnt1: "counter st \<le> State_counter h1" by (simp add: st_def h1_def)
  have ear1: "earley g (input ctx) idx (key st)" using ear key by simp
  have ok1: "start_ok g st \<or> (key st = start_item g \<and> idx = 0)"
    using ok by (simp add: start_ok_def st_def)
  from addState_inv [OF inv1 idx cnt1 ear1 ok1, of pv]
  obtain added ctx' h' where
    A: "addState (st, pv) (int idx) ctx h1 = Inr (added, ctx', h')"
    and inv': "chart_inv g ctx' h'" and fr: "frame {idx} ctx ctx'"
    and pr: "present ctx' idx (key st)"
    and cnt: "State_counter h' = State_counter h1"
    by blast
  from cnt have c: "State_counter h \<le> State_counter h'" by (simp add: h1_def)
  from pr key have pr': "present ctx' idx (deref l, a, d, r)" by simp
  from S A inv' fr c pr' show ?thesis by blast
qed

definition scanning_post ::
  "grammar \<Rightarrow> nat \<Rightarrow> state \<Rightarrow> context_t \<Rightarrow> heap \<Rightarrow> context_t \<times> heap \<Rightarrow> bool" where
  "scanning_post g i st ctx h res =
     (case res of (ctx', h') \<Rightarrow>
        chart_inv g ctx' h' \<and> frame {i + 1} ctx ctx' \<and> State_counter h \<le> State_counter h' \<and>
        scanned i st ctx')"

lemma scanning_terminates:
  assumes inv: "chart_inv g ctx h" and i: "i < length (states ctx)"
    and st: "st \<in> set (states ctx ! i)"
  shows "\<exists>res. scanning i st ctx h = Inr res \<and> scanning_post g i st ctx h res"
proof (cases "getNextSymbol st")
  case None
  then have "scanned i st ctx" by (simp add: scanned_def)
  with None inv show ?thesis
    by (simp add: scanning_def scanning_post_def frame_refl)
next
  case (Some X)
  show ?thesis
  proof (cases "isTerminal X \<and> charAt (input ctx) i = Some (ch X)")
    case False
    with Some have "scanned i st ctx" by (auto simp: scanned_def)
    with Some False inv show ?thesis
      by (auto simp: scanning_def scanning_post_def frame_refl)
  next
    case True
    from getNextSymbol_Some [OF Some]
    have sym: "symbolAt (symArray st) (currentPosition st) = Some X" by simp
    then have d: "0 \<le> currentPosition st + 1"
      "currentPosition st + 1 \<le> int (length (symArray st))"
      by (auto dest: symbolAt_Some)
    from True have "i < length (input ctx)" by (auto dest: charAt_Some)
    with chart_inv_length [OF inv] have idx: "i + 1 < length (states ctx)" by simp
    from chart_inv_member(1) [OF inv i st]
    have "earley g (input ctx) i
            (deref (lhs st), symArray st, currentPosition st, originPosition st)"
      by (simp add: key_def)
    from earley.scan [OF this sym] True
    have ear: "earley g (input ctx) (i + 1)
            (deref (lhs st), symArray st, currentPosition st + 1, originPosition st)"
      by simp
    from chart_inv_member(3) [OF inv i st]
    have ok: "start_fields g (lhs st) (symArray st) (originPosition st)"
      by (simp add: start_ok_def)
    from new_state_inserted [OF inv idx d ear ok, of "[st]"]
    obtain new h1 added ctx' h' where
      S: "State (lhs st) (symArray st) (currentPosition st + 1) (originPosition st) [st] h
            = Inr (new, h1)"
      and A: "addState new (int (i + 1)) ctx h1 = Inr (added, ctx', h')"
      and inv': "chart_inv g ctx' h'" and fr: "frame {i + 1} ctx ctx'"
      and c: "State_counter h \<le> State_counter h'"
      and pr: "present ctx' (i + 1)
                 (deref (lhs st), symArray st, currentPosition st + 1, originPosition st)"
      by blast
    have "scanned i st ctx'"
      using pr by (simp add: scanned_def advanced_def key_def)
    with inv' fr c have "scanning_post g i st ctx h (ctx', h')"
      by (simp add: scanning_post_def)
    moreover from A have "addState new (int i + 1) ctx h1 = Inr (added, ctx', h')"
      by (simp add: add.commute)
    with Some True S have "scanning i st ctx h = Inr (ctx', h')"
      by (simp add: scanning_def getAdvancedState_def)
    ultimately show ?thesis by blast
  qed
qed

lemma closed_state_frame:
  assumes fr: "frame I c1 c2" and low: "\<forall>k\<le>i. k \<notin> I" and r: "originPosition st \<le> i"
    and cl: "closed_state g i c1 st"
  shows "closed_state g i c2 st"
proof -
  from fr low have "states c2 ! i = states c1 ! i" by (simp add: frame_def)
  moreover from fr low r have "states c2 ! originPosition st = states c1 ! originPosition st"
    by (simp add: frame_def)
  ultimately show ?thesis
    using cl by (simp add: closed_state_def examined_def present_def)
qed

lemma scanned_frame:
  assumes fr: "frame I c1 c2" and sc: "scanned k st c1"
  shows "scanned k st c2"
proof -
  from fr have "input c2 = input c1" by (simp add: frame_def)
  with sc frame_present [OF fr] show ?thesis
    unfolding scanned_def by metis
qed

definition position_post ::
  "grammar \<Rightarrow> nat \<Rightarrow> context_t \<Rightarrow> heap \<Rightarrow> error + context_t \<times> heap \<Rightarrow> bool" where
  "position_post g i ctx h res =
     (case res of
        Inl e \<Rightarrow> \<not> wf_grammar g
      | Inr (ctx', h') \<Rightarrow>
          chart_inv g ctx' h' \<and> frame {i, i + 1} ctx ctx' \<and>
          State_counter h \<le> State_counter h' \<and>
          (\<forall>st\<in>set (states ctx' ! i). closed_state g i ctx' st \<and> scanned i st ctx'))"

lemma position_post_trans:
  assumes "frame {i, i + 1} ctx c2" "State_counter h \<le> State_counter h2"
    "position_post g i c2 h2 res"
  shows "position_post g i ctx h res"
proof (cases res)
  case (Inl e)
  with assms show ?thesis by (simp add: position_post_def)
next
  case (Inr p)
  obtain c3 h3 where p: "p = (c3, h3)" by (cases p)
  from assms(3) Inr p have "frame {i, i + 1} c2 c3" by (simp add: position_post_def)
  from frame_trans [OF assms(1) this] have "frame {i, i + 1} ctx c3" by simp
  with assms Inr p show ?thesis by (simp add: position_post_def)
qed

lemma position_loop_terminates:
  assumes "chart_inv g ctx h" "i < length (states ctx)" "length (input ctx) = N"
    and "\<forall>j'<j. j' < length (states ctx ! i) \<longrightarrow> scanned i (states ctx ! i ! j') ctx"
    and "0 < j \<longrightarrow> (\<forall>st\<in>set (states ctx ! i). closed_state g i ctx st)"
  shows "\<exists>res. position_loop g i j ctx h = Some res \<and> position_post g i ctx h res"
  using assms
proof (induction "card (items g N) - j" arbitrary: j ctx h rule: less_induct)
  case less
  note inv = less.prems(1) and i = less.prems(2) and N = less.prems(3)
    and sc = less.prems(4) and cl = less.prems(5)
  show ?case
  proof (cases "j < length (states ctx ! i)")
    case False
    then have P: "position_loop g i j ctx h = Some (Inr (ctx, h))"
      by (subst position_loop.simps) simp
    have "\<forall>st\<in>set (states ctx ! i). closed_state g i ctx st \<and> scanned i st ctx"
    proof
      fix st assume st: "st \<in> set (states ctx ! i)"
      then obtain j' where j': "j' < length (states ctx ! i)" "st = states ctx ! i ! j'"
        by (auto simp: in_set_conv_nth)
      with False sc have "scanned i st ctx" by simp
      moreover from j' False have "0 < j" by simp
      with cl st have "closed_state g i ctx st" by simp
      ultimately show "closed_state g i ctx st \<and> scanned i st ctx" by simp
    qed
    with P inv show ?thesis by (simp add: position_post_def frame_refl)
  next
    case True
    from closure_terminates [OF inv i] obtain res1 where
      C: "closure g i ctx h = Some res1" and post1: "closure_post g i ctx h res1"
      by blast
    show ?thesis
    proof (cases res1)
      case (Inl e)
      with True C have "position_loop g i j ctx h = Some (Inl e)"
        by (subst position_loop.simps) simp
      with post1 Inl show ?thesis by (simp add: position_post_def closure_post_def)
    next
      case (Inr p1)
      obtain c1 h1 where p1: "p1 = (c1, h1)" by (cases p1)
      from post1 Inr p1 have inv1: "chart_inv g c1 h1" and fr1: "frame {i} ctx c1"
        and cnt1: "State_counter h \<le> State_counter h1"
        and cl1: "\<forall>st\<in>set (states c1 ! i). closed_state g i c1 st"
        by (simp_all add: closure_post_def)
      from fr1 have same1: "input c1 = input ctx" "length (states c1) = length (states ctx)"
        by (simp_all add: frame_def)
      have i1: "i < length (states c1)" using i same1 by simp
      have j1: "j < length (states c1 ! i)"
        using True frame_length [OF fr1, of i] by simp
      then have st1: "states c1 ! i ! j \<in> set (states c1 ! i)" by simp
      from scanning_terminates [OF inv1 i1 st1] obtain res2 where
        S: "scanning i (states c1 ! i ! j) c1 h1 = Inr res2"
        and post2: "scanning_post g i (states c1 ! i ! j) c1 h1 res2"
        by blast
      obtain c2 h2 where res2: "res2 = (c2, h2)" by (cases res2)
      from post2 res2 have inv2: "chart_inv g c2 h2" and fr2: "frame {i + 1} c1 c2"
        and cnt2: "State_counter h1 \<le> State_counter h2"
        and sc2: "scanned i (states c1 ! i ! j) c2"
        by (simp_all add: scanning_post_def)
      from fr2 have same2: "input c2 = input c1" "length (states c2) = length (states c1)"
        and b2: "states c2 ! i = states c1 ! i"
        by (simp_all add: frame_def)
      from frame_trans [OF fr1 fr2] have fr: "frame {i, i + 1} ctx c2"
        by (simp add: insert_commute)
      have P: "position_loop g i j ctx h = position_loop g i (j + 1) c2 h2"
        using True C Inr p1 S res2 by (subst position_loop.simps) simp
      have len: "length (states c1 ! i) \<le> card (items g N)"
        using bucket_length_le [OF inv1 i1] same1 N by simp
      with j1 have less: "card (items g N) - (j + 1) < card (items g N) - j" by simp
      have sc': "\<forall>j'<j + 1. j' < length (states c2 ! i)
                   \<longrightarrow> scanned i (states c2 ! i ! j') c2"
      proof (intro allI impI)
        fix j' assume j': "j' < j + 1" "j' < length (states c2 ! i)"
        show "scanned i (states c2 ! i ! j') c2"
        proof (cases "j' = j")
          case True
          with sc2 b2 show ?thesis by simp
        next
          case False
          with j' have lt: "j' < j" by simp
          with \<open>j < length (states ctx ! i)\<close> have "j' < length (states ctx ! i)" by simp
          with sc lt have "scanned i (states ctx ! i ! j') ctx" by simp
          from scanned_frame [OF fr this] have "scanned i (states ctx ! i ! j') c2" .
          moreover from frame_nth [OF fr \<open>j' < length (states ctx ! i)\<close>]
          have "states c2 ! i ! j' = states ctx ! i ! j'" .
          ultimately show ?thesis by simp
        qed
      qed
      have cl': "0 < j + 1 \<longrightarrow> (\<forall>st\<in>set (states c2 ! i). closed_state g i c2 st)"
      proof (intro impI ballI)
        fix st assume "st \<in> set (states c2 ! i)"
        with b2 have st: "st \<in> set (states c1 ! i)" by simp
        with cl1 have "closed_state g i c1 st" by simp
        moreover have "\<forall>k\<le>i. k \<notin> {i + 1}" by simp
        moreover from chart_inv_member(4) [OF inv1 i1 st] have "originPosition st \<le> i" .
        ultimately show "closed_state g i c2 st"
          using fr2 by (intro closed_state_frame [of "{i + 1}" c1 c2]) simp_all
      qed
      have i2: "i < length (states c2)" using i1 same2 by simp
      have N2: "length (input c2) = N" using N same1 same2 by simp
      from less.hyps [OF less inv2 i2 N2 sc' cl'] obtain res where
        R: "position_loop g i (j + 1) c2 h2 = Some res"
        and post: "position_post g i c2 h2 res"
        by blast
      from cnt1 cnt2 have "State_counter h \<le> State_counter h2" by simp
      from position_post_trans [OF fr this post] P R show ?thesis by simp
    qed
  qed
qed

lemma start_fields_lhs:
  "start_fields g l a r \<Longrightarrow> l = START_LHS \<Longrightarrow> a = [startSymbol g] \<and> r = 0"
  unfolding start_fields_def by blast

lemma start_fields_start:
  "start_fields g l a r \<Longrightarrow> deref l = deref START_LHS \<Longrightarrow> a = [startSymbol g] \<Longrightarrow> r = 0
     \<Longrightarrow> l = START_LHS"
  unfolding start_fields_def by blast

lemma closed_predict:
  "closed_state g i ctx st \<Longrightarrow> getNextSymbol st = Some X \<Longrightarrow> \<not> isTerminal X \<Longrightarrow>
     map_of (productions g) (ch X) = Some p \<Longrightarrow> alt \<in> set (rhs p) \<Longrightarrow>
     present ctx i (X, alt, 0, i)"
  unfolding closed_state_def examined_def by blast

lemma closed_complete:
  "closed_state g i ctx st \<Longrightarrow> isComplete st \<Longrightarrow> t \<in> set (states ctx ! originPosition st) \<Longrightarrow>
     hasNonterminalNext t (deref (lhs st)) \<Longrightarrow> present ctx i (advanced (key t))"
  unfolding closed_state_def examined_def by blast

lemma scanned_present:
  "scanned i st ctx \<Longrightarrow> getNextSymbol st = Some X \<Longrightarrow> isTerminal X \<Longrightarrow>
     charAt (input ctx) i = Some (ch X) \<Longrightarrow> present ctx (i + 1) (advanced (key st))"
  unfolding scanned_def by blast

section \<open>The loop over the positions and the whole chart\<close>

definition finished :: "grammar \<Rightarrow> context_t \<Rightarrow> nat \<Rightarrow> bool" where
  "finished g ctx n \<longleftrightarrow>
     (\<forall>k<n. \<forall>st\<in>set (states ctx ! k). closed_state g k ctx st \<and> scanned k st ctx)"

definition chart_post ::
  "grammar \<Rightarrow> context_t \<Rightarrow> heap \<Rightarrow> error + context_t \<times> heap \<Rightarrow> bool" where
  "chart_post g ctx h res =
     (case res of
        Inl e \<Rightarrow> \<not> wf_grammar g
      | Inr (ctx', h') \<Rightarrow>
          chart_inv g ctx' h' \<and> input ctx' = input ctx \<and> State_counter h \<le> State_counter h' \<and>
          finished g ctx' (length (states ctx')))"

lemma chart_loop_terminates:
  assumes "chart_inv g ctx h" "i \<le> length (states ctx)" "finished g ctx i"
  shows "\<exists>res. chart_loop g [i..<length (states ctx)] ctx h = Some res \<and>
           chart_post g ctx h res"
  using assms
proof (induction "length (states ctx) - i" arbitrary: i ctx h rule: less_induct)
  case less
  note inv = less.prems(1) and fin = less.prems(3)
  show ?case
  proof (cases "i < length (states ctx)")
    case False
    with less.prems(2) have "i = length (states ctx)" by simp
    with inv fin show ?thesis by (simp add: chart_post_def)
  next
    case True
    then have upt: "[i..<length (states ctx)] = i # [i + 1..<length (states ctx)]"
      by (simp add: upt_conv_Cons)
    have "\<exists>res. position_loop g i 0 ctx h = Some res \<and> position_post g i ctx h res"
      by (rule position_loop_terminates [OF inv True refl]) simp_all
    then obtain res1 where P: "position_loop g i 0 ctx h = Some res1"
      and post1: "position_post g i ctx h res1"
      by blast
    show ?thesis
    proof (cases res1)
      case (Inl e)
      with P post1 show ?thesis by (simp add: upt position_post_def chart_post_def)
    next
      case (Inr p1)
      obtain c1 h1 where p1: "p1 = (c1, h1)" by (cases p1)
      from post1 Inr p1 have inv1: "chart_inv g c1 h1" and fr: "frame {i, i + 1} ctx c1"
        and cnt: "State_counter h \<le> State_counter h1"
        and here: "\<forall>st\<in>set (states c1 ! i). closed_state g i c1 st \<and> scanned i st c1"
        by (simp_all add: position_post_def)
      from fr have same: "input c1 = input ctx" "length (states c1) = length (states ctx)"
        by (simp_all add: frame_def)
      have fin1: "finished g c1 (i + 1)"
        unfolding finished_def
      proof (intro allI impI ballI)
        fix k st assume k: "k < i + 1" and st: "st \<in> set (states c1 ! k)"
        show "closed_state g k c1 st \<and> scanned k st c1"
        proof (cases "k = i")
          case True
          with here st show ?thesis by simp
        next
          case False
          with k have lt: "k < i" by simp
          with fr have "states c1 ! k = states ctx ! k" by (simp add: frame_def)
          with st have st0: "st \<in> set (states ctx ! k)" by simp
          with fin lt have old: "closed_state g k ctx st" "scanned k st ctx"
            by (simp_all add: finished_def)
          from lt True have kl: "k < length (states ctx)" by simp
          have "\<forall>k'\<le>k. k' \<notin> {i, i + 1}" using lt by simp
          from closed_state_frame [OF fr this chart_inv_member(4) [OF inv kl st0] old(1)]
            scanned_frame [OF fr old(2)]
          show ?thesis by simp
        qed
      qed
      have le: "i + 1 \<le> length (states c1)" using True same by simp
      have "length (states c1) - (i + 1) < length (states ctx) - i" using True same by simp
      from less.hyps [OF this inv1 le fin1] obtain res where
        R: "chart_loop g [i + 1..<length (states c1)] c1 h1 = Some res"
        and post: "chart_post g c1 h1 res"
        by blast
      have "chart_post g ctx h res"
        using post cnt same by (cases res) (auto simp: chart_post_def)
      moreover have "chart_loop g [i..<length (states ctx)] ctx h = Some res"
        using P Inr p1 R same by (simp add: upt)
      ultimately show ?thesis by blast
    qed
  qed
qed

lemma buildChart_terminates:
  "\<exists>res. buildChart g inp h = Some res \<and>
     (case res of
        Inl e \<Rightarrow> \<not> wf_grammar g
      | Inr (ctx, h') \<Rightarrow>
          chart_inv g ctx h' \<and> input ctx = inp \<and> finished g ctx (length (states ctx)))"
proof -
  define s0 where "s0 = \<lparr>lhs = START_LHS, symArray = [startSymbol g], currentPosition = 0,
      originPosition = 0, counter = State_counter h + 1\<rparr>"
  define h1 where "h1 = h\<lparr>State_counter := State_counter h + 1\<rparr>"
  define ctx0 where "ctx0 = \<lparr>input = inp, states = [s0] # replicate (length inp) []\<rparr>"
  define h2 where "h2 = h1\<lparr>prev := (prev h1)(counter s0 := [])\<rparr>"
  have S: "State START_LHS [startSymbol g] 0 0 [] h = Inr ((s0, []), h1)"
    unfolding s0_def h1_def by (rule State_success) simp_all
  have A: "addState (s0, []) 0 (Context inp) h1 = Inr (True, ctx0, h2)"
    by (simp add: addState_def getState_def Context_def ctx0_def h2_def)
  have key0: "key s0 = start_item g" by (simp add: key_def s0_def start_item_def)
  have nth: "states ctx0 ! i = (if i = 0 then [s0] else [])" if "i < length (states ctx0)" for i
    using that by (cases i) (simp_all add: ctx0_def)
  have inv: "chart_inv g ctx0 h2"
    unfolding chart_inv_def
  proof (intro conjI allI impI)
    show "length (states ctx0) = length (input ctx0) + 1" by (simp add: ctx0_def)
    show "\<exists>s\<in>set (states ctx0 ! 0). lhs s = START_LHS \<and> key s = start_item g"
      using key0 by (simp add: ctx0_def s0_def)
  next
    fix i assume i: "i < length (states ctx0)"
    show "distinct (map key (states ctx0 ! i))" using nth [OF i] by simp
    show "\<forall>s\<in>set (states ctx0 ! i).
            earley g (input ctx0) i (key s) \<and> counter s \<le> State_counter h2 \<and> start_ok g s"
    proof
      fix s assume "s \<in> set (states ctx0 ! i)"
      with nth [OF i] have s: "s = s0" and i0: "i = 0" by (simp_all split: if_splits)
      have "earley g (input ctx0) 0 (key s0)" unfolding key0 by (rule earley.init)
      moreover have "counter s0 \<le> State_counter h2" by (simp add: s0_def h2_def h1_def)
      moreover have "start_ok g s0" by (simp add: start_ok_def start_fields_def s0_def)
      ultimately show "earley g (input ctx0) i (key s) \<and> counter s \<le> State_counter h2 \<and>
          start_ok g s"
        using s i0 by simp
    qed
  qed
  have len: "length (states ctx0) = length inp + 1" by (simp add: ctx0_def)
  have fin0: "finished g ctx0 0" by (simp add: finished_def)
  have le0: "0 \<le> length (states ctx0)" by simp
  from chart_loop_terminates [OF inv le0 fin0] obtain res where
    R: "chart_loop g [0..<length (states ctx0)] ctx0 h2 = Some res"
    and post: "chart_post g ctx0 h2 res"
    by blast
  have B: "buildChart g inp h = Some res"
    using S A R len by (simp add: buildChart_def)
  have "input ctx0 = inp" by (simp add: ctx0_def)
  with post have "case res of Inl e \<Rightarrow> \<not> wf_grammar g
      | Inr (ctx, h') \<Rightarrow>
          chart_inv g ctx h' \<and> input ctx = inp \<and> finished g ctx (length (states ctx))"
    by (cases res) (auto simp: chart_post_def)
  with B show ?thesis by blast
qed

section \<open>The chart holds the Earley sets\<close>

lemma chart_complete:
  assumes inv: "chart_inv g ctx h" and fin: "finished g ctx (length (states ctx))"
    and ear: "earley g (input ctx) i k"
  shows "present ctx i k"
  using ear
proof (induction rule: earley.induct)
  case init
  from inv show ?case by (auto simp: chart_inv_def present_def)
next
  case (predict i l a d r X p alt)
  from earley_items [OF predict.hyps(1)] chart_inv_length [OF inv]
  have i: "i < length (states ctx)" by simp
  from predict.IH obtain st where st: "st \<in> set (states ctx ! i)" "key st = (l, a, d, r)"
    by (auto simp: present_def)
  with fin i have cl: "closed_state g i ctx st" by (simp add: finished_def)
  from st predict.hyps(2) have "getNextSymbol st = Some X"
    by (intro getNextSymbol_symbolAt) (simp add: key_def)
  from closed_predict [OF cl this predict.hyps(3,4,5)] show ?case .
next
  case (complete i l a r l' a' d' r')
  from earley_items [OF complete.hyps(1)] chart_inv_length [OF inv]
  have i: "i < length (states ctx)" by simp
  from complete.IH obtain st t where st: "st \<in> set (states ctx ! i)"
    "key st = (l, a, int (length a), r)"
    and t: "t \<in> set (states ctx ! r)" "key t = (l', a', d', r')"
    by (auto simp: present_def)
  from st(2) have c: "isComplete st" and r: "originPosition st = r" and l: "deref (lhs st) = l"
    by (simp_all add: key_def isComplete_def)
  from t(2) complete.hyps(3) l have nt: "hasNonterminalNext t (deref (lhs st))"
    by (simp add: hasNonterminalNext_def key_def Symbol_equals_eq)
  from fin i st(1) have cl: "closed_state g i ctx st" by (simp add: finished_def)
  from t(1) r have tin: "t \<in> set (states ctx ! originPosition st)" by simp
  from t(2) have "advanced (key t) = (l', a', d' + 1, r')"
    by (simp add: advanced_def)
  with closed_complete [OF cl c tin nt] show ?case by simp
next
  case (scan i l a d r X)
  from earley_items [OF scan.hyps(1)] chart_inv_length [OF inv]
  have i: "i < length (states ctx)" by simp
  from scan.IH obtain st where st: "st \<in> set (states ctx ! i)" "key st = (l, a, d, r)"
    by (auto simp: present_def)
  with fin i have sc: "scanned i st ctx" by (simp add: finished_def)
  from st scan.hyps(2) have nx: "getNextSymbol st = Some X"
    by (intro getNextSymbol_symbolAt) (simp add: key_def)
  from st(2) have "advanced (key st) = (l, a, d + 1, r)"
    by (simp add: advanced_def)
  with scanned_present [OF sc nx scan.hyps(3,4)] show ?case by simp
qed

lemma chart_sound:
  assumes "chart_inv g ctx h" "i < length (states ctx)" "present ctx i k"
  shows "earley g (input ctx) i k"
  using assms chart_inv_member(1) by (auto simp: present_def)

definition accept_item :: "grammar \<Rightarrow> item" where
  "accept_item g = (deref START_LHS, [startSymbol g], 1, 0)"

lemma completeParse_iff:
  assumes inv: "chart_inv g ctx h" and i: "i < length (states ctx)"
  shows "find isCompleteParse (states ctx ! i) \<noteq> None \<longleftrightarrow> present ctx i (accept_item g)"
proof
  assume "find isCompleteParse (states ctx ! i) \<noteq> None"
  then obtain m where m: "m \<in> set (states ctx ! i)" "isCompleteParse m"
    by (auto simp: find_None_iff)
  from m(2) have lm: "lhs m = START_LHS" by (simp add: isCompleteParse_def hasStart_def)
  from chart_inv_member(3) [OF inv i m(1)]
  have "start_fields g (lhs m) (symArray m) (originPosition m)" by (simp add: start_ok_def)
  from start_fields_lhs [OF this lm] lm
  have "symArray m = [startSymbol g]" "originPosition m = 0" "lhs m = START_LHS"
    by simp_all
  with m(2) have "key m = accept_item g"
    by (simp add: key_def accept_item_def isCompleteParse_def isComplete_def)
  with m(1) show "present ctx i (accept_item g)" by (auto simp: present_def)
next
  assume "present ctx i (accept_item g)"
  then obtain m where m: "m \<in> set (states ctx ! i)" "key m = accept_item g"
    by (auto simp: present_def)
  from m(2) have f: "deref (lhs m) = deref START_LHS" "symArray m = [startSymbol g]"
    "originPosition m = 0" "currentPosition m = 1"
    by (simp_all add: key_def accept_item_def)
  from chart_inv_member(3) [OF inv i m(1)]
  have "start_fields g (lhs m) (symArray m) (originPosition m)" by (simp add: start_ok_def)
  from start_fields_start [OF this f(1,2,3)] have "lhs m = START_LHS" .
  with f have "isCompleteParse m"
    by (simp add: isCompleteParse_def hasStart_def isComplete_def)
  with m(1) show "find isCompleteParse (states ctx ! i) \<noteq> None"
    by (auto simp: find_None_iff)
qed

text \<open>The chart that \<open>buildChart\<close> returns, characterised.\<close>

lemma buildChart_result:
  "\<exists>res. buildChart g inp h = Some res \<and>
     (case res of
        Inl e \<Rightarrow> \<not> wf_grammar g
      | Inr (ctx, h') \<Rightarrow>
          chart_inv g ctx h' \<and> input ctx = inp \<and>
          (\<forall>i k. i \<le> length inp \<longrightarrow> present ctx i k = earley g inp i k) \<and>
          (find isCompleteParse (states ctx ! length inp) \<noteq> None
             \<longleftrightarrow> earley g inp (length inp) (accept_item g)))"
proof -
  from buildChart_terminates [of g inp h] obtain res where
    B: "buildChart g inp h = Some res"
    and post: "case res of Inl e \<Rightarrow> \<not> wf_grammar g
      | Inr (ctx, h') \<Rightarrow>
          chart_inv g ctx h' \<and> input ctx = inp \<and> finished g ctx (length (states ctx))"
    by blast
  show ?thesis
  proof (cases res)
    case (Inl e)
    with B post show ?thesis by simp
  next
    case (Inr p)
    obtain ctx h' where p: "p = (ctx, h')" by (cases p)
    from post Inr p have inv: "chart_inv g ctx h'" and inp: "input ctx = inp"
      and fin: "finished g ctx (length (states ctx))"
      by simp_all
    from chart_inv_length [OF inv] inp have len: "length (states ctx) = length inp + 1"
      by simp
    have eq: "present ctx i k = earley g inp i k" if "i \<le> length inp" for i k
    proof
      assume "present ctx i k"
      with chart_sound [OF inv, of i k] that len inp show "earley g inp i k" by simp
    next
      assume "earley g inp i k"
      with chart_complete [OF inv fin, of i k] inp show "present ctx i k" by simp
    qed
    have "find isCompleteParse (states ctx ! length inp) \<noteq> None
           \<longleftrightarrow> earley g inp (length inp) (accept_item g)"
      using completeParse_iff [OF inv, of "length inp"] len eq [of "length inp"] by simp
    with B Inr p inv inp eq show ?thesis by simp
  qed
qed

section \<open>Results of a parse\<close>

text \<open>
  \<open>testCFG\<close> reads the result of \<open>doesMatch\<close>: the string is a match when the result
  is truthy (\<open>!!matchState\<close>; an array, also the empty one, is truthy and \<open>null\<close> is
  not), and a derivation is shown when moreover the array is not empty.
\<close>

definition isMatch :: "state list option \<Rightarrow> bool" where
  "isMatch matchState = (matchState \<noteq> None)"

definition showsDerivation :: "state list option \<Rightarrow> bool" where
  "showsDerivation matchState =
     (case matchState of None \<Rightarrow> False | Some sts \<Rightarrow> length sts \<noteq> 0)"

datatype verdict = Match | NoMatch | Throws error | Diverges

definition verdict :: "(error + state list option \<times> heap) option \<Rightarrow> verdict" where
  "verdict res =
     (case res of
        None \<Rightarrow> Diverges
      | Some (Inl e) \<Rightarrow> Throws e
      | Some (Inr (matchState, h)) \<Rightarrow> if isMatch matchState then Match else NoMatch)"

definition initial_heap :: heap where
  "initial_heap = \<lparr>State_counter = 0, prev = (\<lambda>c. [])\<rparr>"

lemma doesMatch_result:
  "\<exists>res. doesMatch g inp h = Some res \<and>
     (case res of
        Inl e \<Rightarrow> \<not> wf_grammar g
      | Inr (m, h') \<Rightarrow> isMatch m = earley g inp (length inp) (accept_item g))"
proof -
  from buildChart_result [of g inp h] obtain res where
    B: "buildChart g inp h = Some res"
    and post: "case res of Inl e \<Rightarrow> \<not> wf_grammar g
      | Inr (ctx, h') \<Rightarrow>
          chart_inv g ctx h' \<and> input ctx = inp \<and>
          (\<forall>i k. i \<le> length inp \<longrightarrow> present ctx i k = earley g inp i k) \<and>
          (find isCompleteParse (states ctx ! length inp) \<noteq> None
             \<longleftrightarrow> earley g inp (length inp) (accept_item g))"
    by blast
  show ?thesis
  proof (cases res)
    case (Inl e)
    with B post show ?thesis by (simp add: doesMatch_def)
  next
    case (Inr p)
    obtain ctx h' where p: "p = (ctx, h')" by (cases p)
    from post Inr p have
      iff: "find isCompleteParse (states ctx ! length inp) \<noteq> None
             \<longleftrightarrow> earley g inp (length inp) (accept_item g)"
      by simp
    show ?thesis
    proof (cases "find isCompleteParse (states ctx ! length inp)")
      case None
      with B Inr p iff show ?thesis by (simp add: doesMatch_def isMatch_def)
    next
      case (Some m)
      with B Inr p iff show ?thesis by (simp add: doesMatch_def isMatch_def)
    qed
  qed
qed

lemma verdict_earley:
  assumes "wf_grammar g"
  shows "verdict (doesMatch g inp h) =
           (if earley g inp (length inp) (accept_item g) then Match else NoMatch)"
proof -
  from doesMatch_result [of g inp h] obtain res where
    D: "doesMatch g inp h = Some res"
    and post: "case res of Inl e \<Rightarrow> \<not> wf_grammar g
      | Inr (m, h') \<Rightarrow> isMatch m = earley g inp (length inp) (accept_item g)"
    by blast
  show ?thesis
  proof (cases res)
    case (Inl e)
    with post assms show ?thesis by simp
  next
    case (Inr p)
    obtain m h' where "p = (m, h')" by (cases p)
    with D post Inr show ?thesis by (simp add: verdict_def)
  qed
qed

subsection \<open>Example grammars\<close>

text \<open>
  The grammar of \<open>test2\<close>, \<open>S \<rightarrow> 0XX\<close> and \<open>X \<rightarrow> \<epsilon> | 1\<close>, built as the test builds
  it.
\<close>

definition sym_0 :: symbol where "sym_0 = Symbol ''0'' True"
definition sym_1 :: symbol where "sym_1 = Symbol ''1'' True"
definition sym_S :: symbol where "sym_S = Symbol ''S'' False"
definition sym_X :: symbol where "sym_X = Symbol ''X'' False"
definition sym_A :: symbol where "sym_A = Symbol ''A'' False"

definition grammar_0XX :: grammar where
  "grammar_0XX =
     addProduction (Production sym_X [[], [sym_1]])
       (addProduction (Production sym_S [[sym_0, sym_X, sym_X]]) (Grammar sym_S))"

text \<open>A grammar whose rule \<open>S \<rightarrow> A\<close> names a nonterminal \<open>A\<close> that has no Production.\<close>

definition grammar_undefined :: grammar where
  "grammar_undefined = addProduction (Production sym_S [[sym_A]]) (Grammar sym_S)"

text \<open>A grammar with a left-recursive rule and a cycle through epsilon: \<open>S \<rightarrow> SS | \<epsilon>\<close>.\<close>

definition grammar_cyclic :: grammar where
  "grammar_cyclic = addProduction (Production sym_S [[sym_S, sym_S], []]) (Grammar sym_S)"

lemmas example_defs =
  sym_0_def sym_1_def sym_S_def sym_X_def sym_A_def Symbol_def Production_def Grammar_def
  addProduction_def rhsContains_def SymArray_equals_def Symbol_equals_def

lemma grammar_0XX_productions:
  "grammar_0XX = \<lparr>startSymbol = sym_S,
     productions = [(''S'', \<lparr>production.lhs = sym_S, rhs = [[sym_0, sym_X, sym_X]]\<rparr>),
                    (''X'', \<lparr>production.lhs = sym_X, rhs = [[], [sym_1]]\<rparr>)],
     nonterminals = [''S'', ''X'']\<rparr>"
  by (simp add: grammar_0XX_def example_defs)

lemma wf_grammar_0XX: "wf_grammar grammar_0XX"
  by (simp add: grammar_0XX_productions wf_grammar_def) (simp add: example_defs)

section \<open>Termination, the invariant of the buckets, and exceptions\<close>

text \<open>
  Claim C1.  For every grammar and every input string the loops of \<open>doesMatch\<close> that
  fill the chart end: the loop \<open>while (newAddedStates)\<close> at every position, and with it
  the loops over \<open>j\<close> and \<open>i\<close>.  The model of a loop that does not end has the value
  \<open>None\<close>; a loop left by an exception has ended.  The grammar may be left-recursive
  and may have cycles through epsilon: nothing is assumed of it.
\<close>

theorem chart_loops_terminate:
  "(\<exists>res. buildChart g inp h = Some res) \<and> (\<exists>res. doesMatch g inp h = Some res)"
  using buildChart_terminates [of g inp h] doesMatch_result [of g inp h] by blast

theorem chart_loops_terminate_witness:
  "(\<exists>res. buildChart grammar_cyclic ''00'' initial_heap = Some res) \<and>
   (\<exists>res. doesMatch grammar_cyclic ''00'' initial_heap = Some res)"
  using chart_loops_terminate [of grammar_cyclic "''00''" initial_heap] .

text \<open>
  Claim C2.  When \<open>doesMatch\<close> has filled the chart, no bucket holds two States that are
  equal in the sense of \<open>State.equals\<close>, which compares \<open>lhs\<close>, \<open>symArray\<close>,
  \<open>currentPosition\<close> and \<open>originPosition\<close> and neither \<open>prev\<close> nor \<open>counter\<close>.
\<close>

theorem buckets_hold_no_equal_states:
  assumes "buildChart g inp h = Some (Inr (ctx, h'))"
    and "i < length (states ctx)"
    and "a < length (states ctx ! i)" "b < length (states ctx ! i)" "a \<noteq> b"
  shows "\<not> State_equals (states ctx ! i ! a) (states ctx ! i ! b)"
proof -
  from buildChart_terminates [of g inp h] assms(1) have "chart_inv g ctx h'" by auto
  with assms(2) have "distinct (map key (states ctx ! i))" by (simp add: chart_inv_def)
  with assms(3,4,5) have "map key (states ctx ! i) ! a \<noteq> map key (states ctx ! i) ! b"
    by (simp add: nth_eq_iff_index_eq del: nth_map)
  with assms(3,4) show ?thesis by (simp add: State_equals_key)
qed

definition bucket_sizes :: "(error + context_t \<times> heap) option \<Rightarrow> nat list" where
  "bucket_sizes res = (case res of Some (Inr (ctx, h)) \<Rightarrow> map length (states ctx) | _ \<Rightarrow> [])"

lemma bucket_sizes_0XX: "bucket_sizes (buildChart grammar_0XX ''0'' initial_heap) = [2, 6]"
  by code_simp

theorem buckets_hold_no_equal_states_witness:
  "\<exists>ctx h'. buildChart grammar_0XX ''0'' initial_heap = Some (Inr (ctx, h')) \<and>
     length (states ctx) = 2 \<and> length (states ctx ! 1) = 6 \<and>
     \<not> State_equals (states ctx ! 1 ! 0) (states ctx ! 1 ! 5)"
proof -
  from bucket_sizes_0XX obtain ctx h' where
    B: "buildChart grammar_0XX ''0'' initial_heap = Some (Inr (ctx, h'))"
    and sizes: "map length (states ctx) = [2, 6]"
    by (auto simp: bucket_sizes_def split: option.splits sum.splits)
  from sizes have "length (map length (states ctx)) = 2" by simp
  then have len: "length (states ctx) = 2" by simp
  from sizes have "map length (states ctx) ! 1 = 6" by simp
  with len have l1: "length (states ctx ! 1) = 6" by simp
  from len l1 have "1 < length (states ctx)" "0 < length (states ctx ! 1)"
    "5 < length (states ctx ! 1)" "(0::nat) \<noteq> 5"
    by simp_all
  from buckets_hold_no_equal_states [OF B this]
  have "\<not> State_equals (states ctx ! 1 ! 0) (states ctx ! 1 ! 5)" .
  with B len l1 show ?thesis by blast
qed

text \<open>
  Claim C4 fails for a grammar with an undefined nonterminal: the prediction step reads
  \<open>production.rhs\<close> of the missing Production, and \<open>doesMatch\<close> throws a TypeError.
\<close>

theorem doesMatch_throws_on_undefined_nonterminal:
  "verdict (doesMatch grammar_undefined [] initial_heap) = Throws TypeError"
  by code_simp

text \<open>
  Claim C4, as the code has it.  When the start symbol and every nonterminal on a
  right-hand side have a Production, \<open>doesMatch\<close> returns for every input string,
  without an exception: it returns \<open>null\<close> (no match), the empty array (a match whose
  derivation is not available) or a path that is not empty (a match with its derivation).
\<close>

theorem doesMatch_never_throws:
  assumes "wf_grammar g"
  shows "\<exists>m h'. doesMatch g inp h = Some (Inr (m, h')) \<and>
           (m = None \<or> m = Some [] \<or> (\<exists>path. m = Some path \<and> path \<noteq> []))"
proof -
  from doesMatch_result [of g inp h] obtain res where
    D: "doesMatch g inp h = Some res"
    and post: "case res of Inl e \<Rightarrow> \<not> wf_grammar g
      | Inr (m, h') \<Rightarrow> isMatch m = earley g inp (length inp) (accept_item g)"
    by blast
  show ?thesis
  proof (cases res)
    case (Inl e)
    with post assms show ?thesis by simp
  next
    case (Inr p)
    obtain m h' where "p = (m, h')" by (cases p)
    with D Inr have "doesMatch g inp h = Some (Inr (m, h'))" by simp
    moreover have "m = None \<or> m = Some [] \<or> (\<exists>path. m = Some path \<and> path \<noteq> [])"
      by (cases m) auto
    ultimately show ?thesis by blast
  qed
qed

theorem doesMatch_never_throws_witness:
  "\<exists>m h'. doesMatch grammar_0XX ''01'' initial_heap = Some (Inr (m, h')) \<and>
           (m = None \<or> m = Some [] \<or> (\<exists>path. m = Some path \<and> path \<noteq> []))"
  using doesMatch_never_throws [OF wf_grammar_0XX, of "''01''" initial_heap] .

section \<open>Derivations in the example grammars\<close>

lemma earley_complete':
  assumes "earley g inp i (l, a, d, r)" "d = int (length a)" "earley g inp r (l', a', d', r')"
    "symbolAt a' d' = Some l" "d'' = d' + 1"
  shows "earley g inp i (l', a', d'', r')"
  using earley.complete [of g inp i l a r l' a' d' r'] assms by simp

lemma earley_scan':
  assumes "earley g inp i (l, a, d, r)" "symbolAt a d = Some X" "isTerminal X"
    "charAt inp i = Some (ch X)" "i' = i + 1" "d' = d + 1"
  shows "earley g inp i' (l, a, d', r)"
  using earley.scan [of g inp i l a d r X] assms by simp

lemma earley_start: "earley g inp 0 (Symbol [] False, [startSymbol g], 0, 0)"
  using earley.init [of g inp] by (simp add: start_item_def)

lemma earley_accept:
  "earley g inp i (Symbol [] False, [startSymbol g], 1, 0) \<Longrightarrow> earley g inp i (accept_item g)"
  by (simp add: accept_item_def)

definition production_S_0XX :: production where
  "production_S_0XX = \<lparr>production.lhs = sym_S, rhs = [[sym_0, sym_X, sym_X]]\<rparr>"

definition production_X_0XX :: production where
  "production_X_0XX = \<lparr>production.lhs = sym_X, rhs = [[], [sym_1]]\<rparr>"

lemma lookup_0XX:
  "startSymbol grammar_0XX = sym_S"
  "map_of (productions grammar_0XX) (ch sym_S) = Some production_S_0XX"
  "map_of (productions grammar_0XX) (ch sym_X) = Some production_X_0XX"
  by (simp_all add: grammar_0XX_productions production_S_0XX_def production_X_0XX_def
        sym_S_def sym_X_def Symbol_def)

lemma sym_simps:
  "isTerminal sym_0" "isTerminal sym_1" "\<not> isTerminal sym_S" "\<not> isTerminal sym_X"
  "ch sym_0 = ''0''" "ch sym_1 = ''1''"
  by (simp_all add: sym_0_def sym_1_def sym_S_def sym_X_def Symbol_def)

text \<open>The part of the derivations that the three strings share: the leading 0.\<close>

lemma earley_0XX_after_0:
  assumes "charAt w 0 = Some ''0''"
  shows "earley grammar_0XX w 1 (sym_S, [sym_0, sym_X, sym_X], 1, 0)"
proof -
  have e0: "earley grammar_0XX w 0 (Symbol [] False, [sym_S], 0, 0)"
    using earley_start [of grammar_0XX w] by (simp add: lookup_0XX)
  have e1: "earley grammar_0XX w 0 (sym_S, [sym_0, sym_X, sym_X], 0, 0)"
    by (rule earley.predict [OF e0 _ _ lookup_0XX(2)])
       (simp_all add: symbolAt_def sym_simps production_S_0XX_def)
  show ?thesis
    by (rule earley_scan' [OF e1, of sym_0]) (simp_all add: symbolAt_def sym_simps assms)
qed

lemma earley_0XX_skip_X:
  assumes "earley grammar_0XX w i (sym_S, [sym_0, sym_X, sym_X], d, 0)" "d = 1 \<or> d = 2"
  shows "earley grammar_0XX w i (sym_S, [sym_0, sym_X, sym_X], d + 1, 0)"
proof -
  have sym: "symbolAt [sym_0, sym_X, sym_X] d = Some sym_X"
    using assms(2) by (auto simp: symbolAt_def)
  have e: "earley grammar_0XX w i (sym_X, [], 0, i)"
    by (rule earley.predict [OF assms(1) sym _ lookup_0XX(3)])
       (simp_all add: sym_simps production_X_0XX_def)
  show ?thesis
    by (rule earley_complete' [OF e _ assms(1) sym]) simp_all
qed

lemma earley_0XX_take_1:
  assumes "earley grammar_0XX w i (sym_S, [sym_0, sym_X, sym_X], d, 0)" "d = 1 \<or> d = 2"
    "charAt w i = Some ''1''"
  shows "earley grammar_0XX w (i + 1) (sym_S, [sym_0, sym_X, sym_X], d + 1, 0)"
proof -
  have sym: "symbolAt [sym_0, sym_X, sym_X] d = Some sym_X"
    using assms(2) by (auto simp: symbolAt_def)
  have e: "earley grammar_0XX w i (sym_X, [sym_1], 0, i)"
    by (rule earley.predict [OF assms(1) sym _ lookup_0XX(3)])
       (simp_all add: sym_simps production_X_0XX_def)
  have e': "earley grammar_0XX w (i + 1) (sym_X, [sym_1], 1, i)"
    by (rule earley_scan' [OF e, of sym_1]) (simp_all add: symbolAt_def sym_simps assms)
  show ?thesis
    by (rule earley_complete' [OF e' _ assms(1) sym]) simp_all
qed

lemma earley_0XX_finish:
  assumes "earley grammar_0XX w i (sym_S, [sym_0, sym_X, sym_X], 3, 0)"
  shows "earley grammar_0XX w i (accept_item grammar_0XX)"
proof -
  have e0: "earley grammar_0XX w 0 (Symbol [] False, [sym_S], 0, 0)"
    using earley_start [of grammar_0XX w] by (simp add: lookup_0XX)
  have "earley grammar_0XX w i (Symbol [] False, [sym_S], 1, 0)"
    by (rule earley_complete' [OF assms _ e0]) (simp_all add: symbolAt_def)
  then show ?thesis by (simp add: accept_item_def lookup_0XX)
qed

lemma earley_0XX_01: "earley grammar_0XX ''01'' 2 (accept_item grammar_0XX)"
proof -
  have "earley grammar_0XX ''01'' 1 (sym_S, [sym_0, sym_X, sym_X], 1, 0)"
    by (rule earley_0XX_after_0) (simp add: charAt_def)
  from earley_0XX_skip_X [OF this] have "earley grammar_0XX ''01'' 1 (sym_S, [sym_0, sym_X, sym_X], 2, 0)"
    by simp
  from earley_0XX_take_1 [OF this]
  have "earley grammar_0XX ''01'' 2 (sym_S, [sym_0, sym_X, sym_X], 3, 0)"
    by (simp add: charAt_def numeral_2_eq_2)
  then show ?thesis by (rule earley_0XX_finish)
qed

lemma earley_0XX_0: "earley grammar_0XX ''0'' 1 (accept_item grammar_0XX)"
proof -
  have "earley grammar_0XX ''0'' 1 (sym_S, [sym_0, sym_X, sym_X], 1, 0)"
    by (rule earley_0XX_after_0) (simp add: charAt_def)
  from earley_0XX_skip_X [OF this] have "earley grammar_0XX ''0'' 1 (sym_S, [sym_0, sym_X, sym_X], 2, 0)"
    by simp
  from earley_0XX_skip_X [OF this]
  have "earley grammar_0XX ''0'' 1 (sym_S, [sym_0, sym_X, sym_X], 3, 0)"
    by simp
  then show ?thesis by (rule earley_0XX_finish)
qed

lemma earley_0XX_011: "earley grammar_0XX ''011'' 3 (accept_item grammar_0XX)"
proof -
  have "earley grammar_0XX ''011'' 1 (sym_S, [sym_0, sym_X, sym_X], 1, 0)"
    by (rule earley_0XX_after_0) (simp add: charAt_def)
  from earley_0XX_take_1 [OF this]
  have "earley grammar_0XX ''011'' 2 (sym_S, [sym_0, sym_X, sym_X], 2, 0)"
    by (simp add: charAt_def numeral_2_eq_2)
  from earley_0XX_take_1 [OF this]
  have "earley grammar_0XX ''011'' 3 (sym_S, [sym_0, sym_X, sym_X], 3, 0)"
    by (simp add: charAt_def numeral_3_eq_3 numeral_2_eq_2)
  then show ?thesis by (rule earley_0XX_finish)
qed

text \<open>
  Claim C6 as stated fails: the grammar derives 011 (both X take 1), and \<open>doesMatch\<close>
  returns a match for it.
\<close>

theorem doesMatch_0XX_011_matches:
  "verdict (doesMatch grammar_0XX ''011'' initial_heap) = Match"
  using verdict_earley [OF wf_grammar_0XX, of "''011''" initial_heap] earley_0XX_011
  by (simp add: numeral_3_eq_3)

text \<open>
  Claim C6, as the code has it.  For the grammar \<open>S \<rightarrow> 0XX\<close>, \<open>X \<rightarrow> \<epsilon> | 1\<close> with the
  start symbol \<open>S\<close>, \<open>doesMatch\<close> returns a match for 01, for 0 and for 011, whatever
  the value of \<open>State.counter\<close> when it is called.
\<close>

theorem doesMatch_0XX:
  "verdict (doesMatch grammar_0XX ''01'' h) = Match \<and>
   verdict (doesMatch grammar_0XX ''0'' h) = Match \<and>
   verdict (doesMatch grammar_0XX ''011'' h) = Match"
  using verdict_earley [OF wf_grammar_0XX, of "''01''" h] earley_0XX_01
    verdict_earley [OF wf_grammar_0XX, of "''0''" h] earley_0XX_0
    verdict_earley [OF wf_grammar_0XX, of "''011''" h] earley_0XX_011
  by (simp add: numeral_3_eq_3 numeral_2_eq_2)

section \<open>Epsilon and the palindromes\<close>

text \<open>A nonterminal derives epsilon when one of its alternatives consists of such nonterminals.\<close>

inductive derivesEpsilon :: "grammar \<Rightarrow> symbol \<Rightarrow> bool" for g where
  "\<not> isTerminal X \<Longrightarrow> map_of (productions g) (ch X) = Some p \<Longrightarrow> alt \<in> set (rhs p) \<Longrightarrow>
   (\<forall>Y\<in>set alt. derivesEpsilon g Y) \<Longrightarrow> derivesEpsilon g X"

lemma earley_over_nullable:
  assumes "derivesEpsilon g X"
  shows "earley g inp i (l, a, d, r) \<Longrightarrow> symbolAt a d = Some X \<Longrightarrow>
         earley g inp i (l, a, d + 1, r)"
  using assms
proof (induction arbitrary: i l a d r rule: derivesEpsilon.induct)
  case (1 X p alt)
  have e0: "earley g inp i (X, alt, 0, i)"
    using earley.predict [OF "1.prems"(1,2) "1.hyps"(1,2,3)] .
  have walk: "k \<le> length alt \<Longrightarrow> earley g inp i (X, alt, int k, i)" for k
  proof (induction k)
    case 0
    with e0 show ?case by simp
  next
    case (Suc k)
    then have e: "earley g inp i (X, alt, int k, i)" and k: "k < length alt" by simp_all
    from k have sym: "symbolAt alt (int k) = Some (alt ! k)" by (simp add: symbolAt_def)
    from k have "alt ! k \<in> set alt" by simp
    with "1.IH" e sym have "earley g inp i (X, alt, int k + 1, i)" by blast
    then show ?case by (simp add: add.commute)
  qed
  from walk [of "length alt"] have "earley g inp i (X, alt, int (length alt), i)" by simp
  from earley.complete [OF this "1.prems"(1,2)] show ?case .
qed

lemma earley_empty_input:
  assumes "derivesEpsilon g (startSymbol g)"
  shows "earley g [] 0 (accept_item g)"
proof -
  have "symbolAt [startSymbol g] 0 = Some (startSymbol g)" by (simp add: symbolAt_def)
  from earley_over_nullable [OF assms earley_start this] show ?thesis
    by (simp add: accept_item_def)
qed

text \<open>
  The grammar of \<open>test1\<close> for the palindromes over 0 and 1, built from three
  Productions for \<open>S\<close> that \<open>addProduction\<close> merges.
\<close>

definition grammar_palindromes :: grammar where
  "grammar_palindromes =
     addProduction (Production sym_S [[sym_0], [sym_1], []])
       (addProduction (Production sym_S [[sym_1, sym_S, sym_1], [sym_0], [sym_1]])
          (addProduction (Production sym_S [[sym_0, sym_S, sym_0], [sym_1, sym_S, sym_1]])
             (Grammar sym_S)))"

definition production_palindromes :: production where
  "production_palindromes =
     \<lparr>production.lhs = sym_S,
      rhs = [[sym_0, sym_S, sym_0], [sym_1, sym_S, sym_1], [sym_0], [sym_1], []]\<rparr>"

lemma grammar_palindromes_productions:
  "grammar_palindromes =
     \<lparr>startSymbol = sym_S, productions = [(''S'', production_palindromes)],
      nonterminals = [''S'']\<rparr>"
  by (simp add: grammar_palindromes_def production_palindromes_def example_defs)

lemma lookup_palindromes:
  "startSymbol grammar_palindromes = sym_S"
  "map_of (productions grammar_palindromes) (ch sym_S) = Some production_palindromes"
  by (simp_all add: grammar_palindromes_productions sym_S_def Symbol_def)

lemma wf_grammar_palindromes: "wf_grammar grammar_palindromes"
  by (simp add: grammar_palindromes_productions wf_grammar_def production_palindromes_def)
     (simp add: example_defs)

lemma derivesEpsilon_palindromes: "derivesEpsilon grammar_palindromes sym_S"
  by (rule derivesEpsilon.intros [OF _ lookup_palindromes(2), of "[]"])
     (simp_all add: sym_simps production_palindromes_def)

lemma earley_palindromes_101:
  "earley grammar_palindromes ''101'' 3 (accept_item grammar_palindromes)"
proof -
  let ?g = grammar_palindromes and ?w = "''101''"
  have e0: "earley ?g ?w 0 (Symbol [] False, [sym_S], 0, 0)"
    using earley_start [of ?g ?w] by (simp add: lookup_palindromes)
  have e1: "earley ?g ?w 0 (sym_S, [sym_1, sym_S, sym_1], 0, 0)"
    by (rule earley.predict [OF e0 _ _ lookup_palindromes(2)])
       (simp_all add: symbolAt_def sym_simps production_palindromes_def)
  have e2: "earley ?g ?w 1 (sym_S, [sym_1, sym_S, sym_1], 1, 0)"
    by (rule earley_scan' [OF e1, of sym_1]) (simp_all add: symbolAt_def sym_simps charAt_def)
  have e3: "earley ?g ?w 1 (sym_S, [sym_0], 0, 1)"
    by (rule earley.predict [OF e2 _ _ lookup_palindromes(2)])
       (simp_all add: symbolAt_def sym_simps production_palindromes_def)
  have e4: "earley ?g ?w 2 (sym_S, [sym_0], 1, 1)"
    by (rule earley_scan' [OF e3, of sym_0]) (simp_all add: symbolAt_def sym_simps charAt_def)
  have e5: "earley ?g ?w 2 (sym_S, [sym_1, sym_S, sym_1], 2, 0)"
    by (rule earley_complete' [OF e4 _ e2]) (simp_all add: symbolAt_def)
  have e6: "earley ?g ?w 3 (sym_S, [sym_1, sym_S, sym_1], 3, 0)"
    by (rule earley_scan' [OF e5, of sym_1]) (simp_all add: symbolAt_def sym_simps charAt_def)
  have "earley ?g ?w 3 (Symbol [] False, [sym_S], 1, 0)"
    by (rule earley_complete' [OF e6 _ e0]) (simp_all add: symbolAt_def)
  then show ?thesis by (simp add: accept_item_def lookup_palindromes)
qed

section \<open>A certificate for the strings that do not match\<close>

definition cert_at :: "item list list \<Rightarrow> nat \<Rightarrow> item list" where
  "cert_at C i = (if i < length C then C ! i else [])"

definition cert_item_ok :: "grammar \<Rightarrow> string \<Rightarrow> item list list \<Rightarrow> nat \<Rightarrow> item \<Rightarrow> bool" where
  "cert_item_ok g inp C i k =
     (case k of (l, a, d, r) \<Rightarrow>
        (case symbolAt a d of
           None \<Rightarrow> True
         | Some X \<Rightarrow>
             if isTerminal X
             then (if charAt inp i = Some (ch X) then (l, a, d + 1, r) \<in> set (cert_at C (i + 1))
                   else True)
             else (case map_of (productions g) (ch X) of
                     None \<Rightarrow> True
                   | Some p \<Rightarrow> list_all (\<lambda>alt. (X, alt, 0, i) \<in> set (cert_at C i)) (rhs p))) \<and>
        (if d = int (length a)
         then list_all (\<lambda>k'. case k' of (l', a', d', r') \<Rightarrow>
                  if symbolAt a' d' = Some l then (l', a', d' + 1, r') \<in> set (cert_at C i)
                  else True) (cert_at C r)
         else True))"

definition cert_ok :: "grammar \<Rightarrow> string \<Rightarrow> item list list \<Rightarrow> bool" where
  "cert_ok g inp C \<longleftrightarrow>
     start_item g \<in> set (cert_at C 0) \<and>
     list_all (\<lambda>i. list_all (cert_item_ok g inp C i) (cert_at C i)) [0..<length C]"

lemma cert_okD:
  assumes "cert_ok g inp C" "k \<in> set (cert_at C i)"
  shows "cert_item_ok g inp C i k"
proof -
  from assms(2) have "i < length C" by (auto simp: cert_at_def split: if_splits)
  with assms show ?thesis by (auto simp: cert_ok_def list_all_iff)
qed

lemma cert_sound:
  assumes ok: "cert_ok g inp C"
  shows "earley g inp i k \<Longrightarrow> k \<in> set (cert_at C i)"
proof (induction rule: earley.induct)
  case init
  from ok show ?case by (simp add: cert_ok_def)
next
  case (predict i l a d r X p alt)
  from cert_okD [OF ok predict.IH] predict.hyps(2-5) show ?case
    by (simp add: cert_item_ok_def list_all_iff)
next
  case (complete i l a r l' a' d' r')
  from cert_okD [OF ok complete.IH(1)]
  have "list_all (\<lambda>k'. case k' of (l', a', d', r') \<Rightarrow>
            if symbolAt a' d' = Some l then (l', a', d' + 1, r') \<in> set (cert_at C i)
            else True) (cert_at C r)"
    by (simp add: cert_item_ok_def)
  with complete.IH(2) complete.hyps(3) show ?case
    by (auto simp: list_all_iff)
next
  case (scan i l a d r X)
  from cert_okD [OF ok scan.IH] scan.hyps(2-4) show ?case
    by (simp add: cert_item_ok_def)
qed

definition cert_palindromes_10 :: "item list list" where
  "cert_palindromes_10 =
     (let Z = Symbol [] False; S = sym_S;
          A = [sym_0, sym_S, sym_0]; B = [sym_1, sym_S, sym_1]; C = [sym_0]; D = [sym_1];
          E = []
      in [[(Z, [S], 0, 0), (S, A, 0, 0), (S, B, 0, 0), (S, C, 0, 0), (S, D, 0, 0),
           (S, E, 0, 0), (Z, [S], 1, 0)],
          [(S, B, 1, 0), (S, D, 1, 0), (S, A, 0, 1), (S, B, 0, 1), (S, C, 0, 1),
           (S, D, 0, 1), (S, E, 0, 1), (Z, [S], 1, 0), (S, B, 2, 0)],
          [(S, A, 1, 1), (S, C, 1, 1), (S, A, 0, 2), (S, B, 0, 2), (S, C, 0, 2),
           (S, D, 0, 2), (S, E, 0, 2), (S, B, 2, 0), (S, A, 2, 1)]])"

lemma cert_palindromes_10_ok: "cert_ok grammar_palindromes ''10'' cert_palindromes_10"
  by code_simp

lemma cert_palindromes_10_rejects:
  "accept_item grammar_palindromes \<notin> set (cert_at cert_palindromes_10 2)"
  by code_simp

lemma not_earley_palindromes_10:
  "\<not> earley grammar_palindromes ''10'' 2 (accept_item grammar_palindromes)"
  using cert_sound [OF cert_palindromes_10_ok] cert_palindromes_10_rejects by blast

text \<open>
  A grammar whose start symbol derives epsilon and whose second alternative names a
  nonterminal without a Production: \<open>S \<rightarrow> \<epsilon> | A\<close>.
\<close>

definition grammar_epsilon_undefined :: grammar where
  "grammar_epsilon_undefined = addProduction (Production sym_S [[], [sym_A]]) (Grammar sym_S)"

lemma derivesEpsilon_epsilon_undefined:
  "derivesEpsilon grammar_epsilon_undefined (startSymbol grammar_epsilon_undefined)"
proof -
  have "map_of (productions grammar_epsilon_undefined) (ch sym_S)
          = Some (Production sym_S [[], [sym_A]])"
    by (simp add: grammar_epsilon_undefined_def example_defs)
  from derivesEpsilon.intros [OF _ this, of "[]"]
  have "derivesEpsilon grammar_epsilon_undefined sym_S"
    by (simp add: sym_simps Production_def)
  then show ?thesis by (simp add: grammar_epsilon_undefined_def example_defs)
qed

text \<open>
  Claim C7 as stated fails for this grammar: its start symbol derives epsilon, and
  \<open>doesMatch\<close> throws on the empty string.
\<close>

theorem doesMatch_epsilon_throws:
  "derivesEpsilon grammar_epsilon_undefined (startSymbol grammar_epsilon_undefined) \<and>
   verdict (doesMatch grammar_epsilon_undefined [] initial_heap) = Throws TypeError"
proof (rule conjI)
  show "derivesEpsilon grammar_epsilon_undefined (startSymbol grammar_epsilon_undefined)"
    by (rule derivesEpsilon_epsilon_undefined)
  show "verdict (doesMatch grammar_epsilon_undefined [] initial_heap) = Throws TypeError"
    by code_simp
qed

text \<open>
  Claim C7, as the code has it.  When every nonterminal of the grammar has a Production
  and the start symbol derives epsilon, \<open>doesMatch\<close> returns a match for the empty
  string.  For the grammar of the palindromes, \<open>S \<rightarrow> 0S0 | 1S1 | 0 | 1 | \<epsilon>\<close>, it returns
  a match for 101 and for the empty string and no match for 10.
\<close>

theorem doesMatch_epsilon_and_palindromes:
  "(wf_grammar g \<and> derivesEpsilon g (startSymbol g) \<longrightarrow> verdict (doesMatch g [] h) = Match) \<and>
   verdict (doesMatch grammar_palindromes ''101'' h) = Match \<and>
   verdict (doesMatch grammar_palindromes ''10'' h) = NoMatch \<and>
   verdict (doesMatch grammar_palindromes [] h) = Match"
proof (intro conjI impI)
  assume "wf_grammar g \<and> derivesEpsilon g (startSymbol g)"
  with verdict_earley [of g "[]" h] earley_empty_input [of g]
  show "verdict (doesMatch g [] h) = Match" by simp
next
  from verdict_earley [OF wf_grammar_palindromes, of "''101''" h] earley_palindromes_101
  show "verdict (doesMatch grammar_palindromes ''101'' h) = Match"
    by (simp add: numeral_3_eq_3)
next
  from verdict_earley [OF wf_grammar_palindromes, of "''10''" h] not_earley_palindromes_10
  show "verdict (doesMatch grammar_palindromes ''10'' h) = NoMatch"
    by (simp add: numeral_2_eq_2)
next
  from lookup_palindromes(1) derivesEpsilon_palindromes
  have "derivesEpsilon grammar_palindromes (startSymbol grammar_palindromes)" by simp
  with verdict_earley [OF wf_grammar_palindromes, of "[]" h]
    earley_empty_input [of grammar_palindromes]
  show "verdict (doesMatch grammar_palindromes [] h) = Match" by simp
qed

theorem doesMatch_epsilon_and_palindromes_witness:
  "wf_grammar grammar_0XX \<and> \<not> derivesEpsilon grammar_0XX (startSymbol grammar_0XX) \<and>
   wf_grammar grammar_palindromes \<and>
   derivesEpsilon grammar_palindromes (startSymbol grammar_palindromes) \<and>
   verdict (doesMatch grammar_palindromes [] initial_heap) = Match \<and>
   verdict (doesMatch grammar_palindromes ''101'' initial_heap) = Match \<and>
   verdict (doesMatch grammar_palindromes ''10'' initial_heap) = NoMatch"
proof -
  have eps: "derivesEpsilon grammar_palindromes (startSymbol grammar_palindromes)"
    using lookup_palindromes(1) derivesEpsilon_palindromes by simp
  have "\<not> derivesEpsilon grammar_0XX sym_S"
  proof
    assume "derivesEpsilon grammar_0XX sym_S"
    then show False
    proof (cases rule: derivesEpsilon.cases)
      case (1 p alt)
      with lookup_0XX(2) have "alt = [sym_0, sym_X, sym_X]"
        by (simp add: production_S_0XX_def)
      with 1(4) have "derivesEpsilon grammar_0XX sym_0" by simp
      then show False by (cases rule: derivesEpsilon.cases) (simp add: sym_simps)
    qed
  qed
  then have no: "\<not> derivesEpsilon grammar_0XX (startSymbol grammar_0XX)"
    by (simp add: lookup_0XX)
  from doesMatch_epsilon_and_palindromes [of grammar_palindromes initial_heap]
    wf_grammar_palindromes wf_grammar_0XX eps no
  show ?thesis by simp
qed

section \<open>The search for a derivation\<close>

definition next_string :: "state \<Rightarrow> string \<Rightarrow> string" where
  "next_string newState cur =
     (if currentPosition newState = int (length (symArray newState))
      then replaceLastNonterminalStr cur (Symbol_toString (deref (lhs newState)))
             (if length (symArray newState) = 0 then []
              else SymArray_toString (symArray newState))
      else cur)"

lemma expand_Cons:
  "expand inp sts cur (y # rest) queue n =
     (if next_string y cur = inp then Inl (Found (sts @ [y]))
      else if n + 1 > DERIVATION_LIMIT then Inl LimitReached
      else expand inp sts cur rest (queue @ [(sts @ [y], next_string y cur)]) (n + 1))"
  by (simp add: next_string_def Let_def)

lemma expand_Found: "expand inp sts cur pv queue n = Inl (Found p) \<Longrightarrow> p \<noteq> []"
proof (induction pv arbitrary: queue n)
  case Nil
  then show ?case by simp
next
  case (Cons y rest)
  from Cons.prems Cons.IH show ?case
    by (auto simp: expand_Cons simp del: expand.simps split: if_splits)
qed

lemma search_loop_Found: "search_loop h inp queue n = Found p \<Longrightarrow> p \<noteq> []"
proof (induction h inp queue n rule: search_loop.induct)
  case (1 h inp n)
  then show ?case by simp
next
  case (2 h inp sts cur queue n)
  show ?case
  proof (cases "expand inp sts cur (prev h (counter (last sts))) queue n")
    case (Inl r)
    with "2.prems" have "r = Found p" by simp
    with Inl show ?thesis by (auto dest: expand_Found)
  next
    case (Inr x)
    obtain q' n' where x: "x = (q', n')" by (cases x)
    with Inr "2.prems" have "search_loop h inp q' n' = Found p" by simp
    with "2.IH" [OF Inr x [symmetric]] show ?thesis .
  qed
qed

lemma expand_not_found:
  assumes "\<forall>y\<in>set pv. next_string y cur \<noteq> inp"
  shows "expand inp sts cur pv queue n = Inl LimitReached \<or>
         expand inp sts cur pv queue n =
           Inr (queue @ map (\<lambda>y. (sts @ [y], next_string y cur)) pv, n + length pv)"
  using assms
proof (induction pv arbitrary: queue n)
  case Nil
  then show ?case by simp
next
  case (Cons y rest)
  from Cons.prems have ne: "next_string y cur \<noteq> inp"
    and rest: "\<forall>y\<in>set rest. next_string y cur \<noteq> inp"
    by simp_all
  show ?case
  proof (cases "n + 1 > DERIVATION_LIMIT")
    case True
    with ne show ?thesis by (simp add: expand_Cons del: expand.simps)
  next
    case False
    from Cons.IH [OF rest, of "queue @ [(sts @ [y], next_string y cur)]" "n + 1"] ne False
    show ?thesis by (simp add: expand_Cons del: expand.simps)
  qed
qed

text \<open>
  A search that can never find the input and always has a path to extend leaves by the
  limit.
\<close>

lemma search_hits_limit:
  assumes closed: "\<forall>x\<in>R. \<forall>y\<in>set (prev h (counter x)). y \<in> R"
    and good_step: "\<forall>x\<in>R. \<forall>y\<in>set (prev h (counter x)). \<forall>s. good s \<longrightarrow> good (next_string y s)"
    and neq: "\<forall>s. good s \<longrightarrow> s \<noteq> inp"
    and live: "\<forall>x\<in>L. \<exists>y\<in>set (prev h (counter x)). y \<in> L"
    and inv: "\<forall>e\<in>set queue. fst e \<noteq> [] \<and> last (fst e) \<in> R \<and> good (snd e)"
    and has: "\<exists>e\<in>set queue. last (fst e) \<in> L"
  shows "search_loop h inp queue n = LimitReached"
  using assms
proof (induction h inp queue n rule: search_loop.induct)
  case (1 h inp n)
  from "1.prems"(6) show ?case by simp
next
  case (2 h inp sts cur queue n)
  note closed = "2.prems"(1) and good_step = "2.prems"(2) and neq = "2.prems"(3)
    and live = "2.prems"(4) and inv = "2.prems"(5) and has = "2.prems"(6)
  let ?pv = "prev h (counter (last sts))"
  let ?new = "map (\<lambda>y. (sts @ [y], next_string y cur)) ?pv"
  from inv have head: "last sts \<in> R" "good cur" by simp_all
  from inv have tail: "\<forall>e\<in>set queue. fst e \<noteq> [] \<and> last (fst e) \<in> R \<and> good (snd e)"
    by simp
  have step: "y \<in> R \<and> good (next_string y cur)" if "y \<in> set ?pv" for y
    using closed good_step head that by blast
  have nf: "\<forall>y\<in>set ?pv. next_string y cur \<noteq> inp"
    using step neq by blast
  from expand_not_found [OF nf, of sts queue n] show ?case
  proof
    assume "expand inp sts cur ?pv queue n = Inl LimitReached"
    then show ?thesis by (simp only: search_loop.simps sum.case)
  next
    assume E: "expand inp sts cur ?pv queue n = Inr (queue @ ?new, n + length ?pv)"
    have inv': "\<forall>e\<in>set (queue @ ?new). fst e \<noteq> [] \<and> last (fst e) \<in> R \<and> good (snd e)"
    proof
      fix e
      assume "e \<in> set (queue @ ?new)"
      then consider "e \<in> set queue"
        | y where "y \<in> set ?pv" "e = (sts @ [y], next_string y cur)"
        by auto
      then show "fst e \<noteq> [] \<and> last (fst e) \<in> R \<and> good (snd e)"
      proof cases
        case 1
        with tail show ?thesis by blast
      next
        case 2
        with step [OF 2(1)] show ?thesis by simp
      qed
    qed
    have has': "\<exists>e\<in>set (queue @ ?new). last (fst e) \<in> L"
    proof (cases "last sts \<in> L")
      case True
      with live obtain y where y: "y \<in> set ?pv" "y \<in> L" by blast
      let ?e = "(sts @ [y], next_string y cur)"
      from y(1) have "?e \<in> set (queue @ ?new)" by simp
      moreover from y(2) have "last (fst ?e) \<in> L" by simp
      ultimately show ?thesis by (rule bexI [rotated])
    next
      case False
      from has obtain e where e: "e \<in> set ((sts, cur) # queue)" "last (fst e) \<in> L"
        by blast
      with False have "e \<in> set queue" by auto
      then have "e \<in> set (queue @ ?new)" by simp
      with e(2) show ?thesis by (rule bexI)
    qed
    have "search_loop h inp (queue @ ?new) (n + length ?pv) = LimitReached"
      by (rule "2.IH" [OF E refl closed good_step neq live inv' has'])
    with E show ?thesis by (simp only: search_loop.simps sum.case prod.case)
  qed
qed

lemma lastIndexFrom_le: "lastIndexFrom s t k = Some i \<Longrightarrow> i \<le> k"
  by (induction k) (auto split: if_splits)

lemma lastIndexOf_bound: "lastIndexOf s t = Some i \<Longrightarrow> i + length t \<le> length s"
  by (auto simp: lastIndexOf_def split: if_splits dest: lastIndexFrom_le)

lemma replace_keeps_last:
  assumes "2 \<le> length t" "s \<noteq> []"
  shows "replaceLastNonterminalStr s t ins \<noteq> [] \<and>
         last (replaceLastNonterminalStr s t ins) = last s"
proof (cases "lastIndexOf s t")
  case None
  with assms show ?thesis by (simp add: replaceLastNonterminalStr_def)
next
  case (Some i)
  from lastIndexOf_bound [OF Some] assms(1) have i: "i + 1 < length s" by simp
  then have "drop (i + 1) s \<noteq> []" by simp
  moreover from i have "last (drop (i + 1) s) = last s" by (simp add: last_drop)
  ultimately show ?thesis using Some by (simp add: replaceLastNonterminalStr_def)
qed

subsection \<open>Two grammars over the nonterminal \<open>&\<close>\<close>

text \<open>
  \<open>escapeHTML\<close> writes the nonterminal \<open>&\<close> as \<open>&amp;\<close>, and
  \<open>replaceLastNonterminalStr\<close> replaces the one character at the index that
  \<open>lastIndexOf\<close> found.  The string of the search then keeps its last character, the
  semicolon, and never is the input.  In the grammar \<open>& \<rightarrow> & | 0\<close> the prev arrays have a
  cycle and the search goes on to the limit; in the grammar \<open>& \<rightarrow> 0\<close> they have none and
  the queue runs empty.
\<close>

definition sym_amp :: symbol where "sym_amp = Symbol ''&'' False"

definition grammar_amp_cycle :: grammar where
  "grammar_amp_cycle =
     addProduction (Production sym_amp [[sym_amp], [sym_0]]) (Grammar sym_amp)"

definition grammar_amp :: grammar where
  "grammar_amp = addProduction (Production sym_amp [[sym_0]]) (Grammar sym_amp)"

text \<open>The six States of the chart of \<open>grammar_amp_cycle\<close> for the input 0, by counter.\<close>

definition cycle_state :: "nat \<Rightarrow> state" where
  "cycle_state c =
     \<lparr>lhs = (if c = 1 \<or> c = 21 then START_LHS else GrammarSymbol sym_amp),
      symArray = (if c = 3 \<or> c = 20 then [sym_0] else [sym_amp]),
      currentPosition = (if c < 20 then 0 else 1),
      originPosition = 0,
      counter = c\<rparr>"

definition chart_view ::
  "(error + context_t \<times> heap) option \<Rightarrow> nat list
   \<Rightarrow> (state list list \<times> state list list) option" where
  "chart_view res cs =
     (case res of Some (Inr (ctx, h)) \<Rightarrow> Some (states ctx, map (prev h) cs) | _ \<Rightarrow> None)"

lemma chart_amp_cycle_view:
  "chart_view (buildChart grammar_amp_cycle ''0'' initial_heap) [1, 2, 3, 20, 21, 22]
     = Some ([map cycle_state [1, 2, 3], map cycle_state [20, 21, 22]],
             map (map cycle_state) [[], [1, 2], [1, 2], [3], [20, 22], [20, 22]])"
  by code_simp

lemma chart_amp_cycle:
  "\<exists>ctx h'. buildChart grammar_amp_cycle ''0'' initial_heap = Some (Inr (ctx, h')) \<and>
     states ctx = [map cycle_state [1, 2, 3], map cycle_state [20, 21, 22]] \<and>
     prev h' 1 = [] \<and>
     prev h' 2 = [cycle_state 1, cycle_state 2] \<and>
     prev h' 3 = [cycle_state 1, cycle_state 2] \<and>
     prev h' 20 = [cycle_state 3] \<and>
     prev h' 21 = [cycle_state 20, cycle_state 22] \<and>
     prev h' 22 = [cycle_state 20, cycle_state 22]"
proof (cases "buildChart grammar_amp_cycle ''0'' initial_heap")
  case None
  with chart_amp_cycle_view show ?thesis by (simp add: chart_view_def)
next
  case (Some res)
  show ?thesis
  proof (cases res)
    case (Inl e)
    with Some chart_amp_cycle_view show ?thesis by (simp add: chart_view_def)
  next
    case (Inr p)
    obtain ctx h' where p: "p = (ctx, h')" by (cases p)
    from chart_amp_cycle_view Some Inr p show ?thesis by (simp add: chart_view_def)
  qed
qed

lemma counter_cycle_state: "counter (cycle_state c) = c"
  by (simp add: cycle_state_def)

lemma Symbol_toString_amp: "Symbol_toString sym_amp = ''&amp;''"
  by (simp add: Symbol_toString_def sym_amp_def Symbol_def escapeHTML_def escapeChar_def)

definition ends_in_semicolon :: "string \<Rightarrow> bool" where
  "ends_in_semicolon s = (s \<noteq> [] \<and> last s = CHR '';'')"

lemma next_string_cycle_state:
  assumes "c \<in> {1, 2, 3, 20, 22}" and "ends_in_semicolon s"
  shows "ends_in_semicolon (next_string (cycle_state c) s)"
proof (cases "c < 20")
  case True
  with assms(2) show ?thesis by (simp add: next_string_def cycle_state_def)
next
  case False
  with assms(1) have c: "c = 20 \<or> c = 22" by auto
  then have "next_string (cycle_state c) s
             = replaceLastNonterminalStr s ''&amp;'' (SymArray_toString (symArray (cycle_state c)))"
    using Symbol_toString_amp by (auto simp: next_string_def cycle_state_def)
  moreover have "(2::nat) \<le> length ''&amp;''" by simp
  ultimately show ?thesis
    using assms(2) replace_keeps_last [of "''&amp;''" s]
    by (simp add: ends_in_semicolon_def)
qed

lemma search_amp_cycle:
  assumes p: "prev h 1 = []"
    "prev h 2 = [cycle_state 1, cycle_state 2]"
    "prev h 3 = [cycle_state 1, cycle_state 2]"
    "prev h 20 = [cycle_state 3]"
    "prev h 21 = [cycle_state 20, cycle_state 22]"
    "prev h 22 = [cycle_state 20, cycle_state 22]"
  shows "search_from h (cycle_state 21) ''0'' = LimitReached"
proof -
  let ?R = "cycle_state ` {1, 2, 3, 20, 21, 22}"
  let ?L = "cycle_state ` {21, 22}"
  have closed: "\<forall>x\<in>?R. \<forall>y\<in>set (prev h (counter x)). y \<in> ?R"
    using p by (simp add: counter_cycle_state)
  have good_step: "\<forall>x\<in>?R. \<forall>y\<in>set (prev h (counter x)).
      \<forall>s. ends_in_semicolon s \<longrightarrow> ends_in_semicolon (next_string y s)"
    using p by (simp add: counter_cycle_state next_string_cycle_state)
  have neq: "\<forall>s. ends_in_semicolon s \<longrightarrow> s \<noteq> escapeHTML ''0''"
    by (auto simp: ends_in_semicolon_def escapeHTML_def escapeChar_def)
  have live: "\<forall>x\<in>?L. \<exists>y\<in>set (prev h (counter x)). y \<in> ?L"
    using p by (simp add: counter_cycle_state)
  let ?queue = "[([cycle_state 21], SymArray_toString (symArray (cycle_state 21)))]"
  have start: "SymArray_toString (symArray (cycle_state 21)) = ''&amp;''"
    using Symbol_toString_amp by (simp add: SymArray_toString_def cycle_state_def)
  have inv: "\<forall>e\<in>set ?queue. fst e \<noteq> [] \<and> last (fst e) \<in> ?R \<and> ends_in_semicolon (snd e)"
    by (simp add: start ends_in_semicolon_def)
  have has: "\<exists>e\<in>set ?queue. last (fst e) \<in> ?L"
    by simp
  from search_hits_limit [OF closed good_step neq live inv has]
  show ?thesis by (simp only: search_from_def)
qed

text \<open>The four States of the chart of \<open>grammar_amp\<close> for the input 0, by counter.\<close>

definition chain_state :: "nat \<Rightarrow> state" where
  "chain_state c =
     \<lparr>lhs = (if c = 1 \<or> c = 6 then START_LHS else GrammarSymbol sym_amp),
      symArray = (if c = 1 \<or> c = 6 then [sym_amp] else [sym_0]),
      currentPosition = (if c < 5 then 0 else 1),
      originPosition = 0,
      counter = c\<rparr>"

lemma chart_amp_view:
  "chart_view (buildChart grammar_amp ''0'' initial_heap) [1, 2, 5, 6]
     = Some ([map chain_state [1, 2], map chain_state [5, 6]],
             map (map chain_state) [[], [1], [2], [5]])"
  by code_simp

lemma chart_amp:
  "\<exists>ctx h'. buildChart grammar_amp ''0'' initial_heap = Some (Inr (ctx, h')) \<and>
     states ctx = [map chain_state [1, 2], map chain_state [5, 6]] \<and>
     prev h' 1 = [] \<and>
     prev h' 2 = [chain_state 1] \<and>
     prev h' 5 = [chain_state 2] \<and>
     prev h' 6 = [chain_state 5]"
proof (cases "buildChart grammar_amp ''0'' initial_heap")
  case None
  with chart_amp_view show ?thesis by (simp add: chart_view_def)
next
  case (Some res)
  show ?thesis
  proof (cases res)
    case (Inl e)
    with Some chart_amp_view show ?thesis by (simp add: chart_view_def)
  next
    case (Inr p)
    obtain ctx h' where p: "p = (ctx, h')" by (cases p)
    from chart_amp_view Some Inr p show ?thesis by (simp add: chart_view_def)
  qed
qed

lemma search_amp:
  assumes p: "prev h 1 = []"
    "prev h 2 = [chain_state 1]"
    "prev h 5 = [chain_state 2]"
    "prev h 6 = [chain_state 5]"
  shows "search_from h (chain_state 6) ''0'' = Exhausted"
proof -
  have n5: "next_string (chain_state 5) ''&amp;'' = ''0amp;''"
    using Symbol_toString_amp
    by (simp add: next_string_def chain_state_def replaceLastNonterminalStr_def
        lastIndexOf_def SymArray_toString_def Symbol_toString_def sym_0_def Symbol_def
        escapeHTML_def escapeChar_def)
  have n2: "next_string (chain_state 2) s = s" and n1: "next_string (chain_state 1) s = s" for s
    by (simp_all add: next_string_def chain_state_def)
  have start: "SymArray_toString (symArray (chain_state 6)) = ''&amp;''"
    using Symbol_toString_amp by (simp add: SymArray_toString_def chain_state_def)
  have inp: "escapeHTML ''0'' = ''0''"
    by (simp add: escapeHTML_def escapeChar_def)
  have c: "counter (chain_state c) = c" for c
    by (simp add: chain_state_def)
  from p(1) n1 have one: "prev h (Suc 0) = []" "next_string (chain_state (Suc 0)) s = s" for s
    by simp_all
  show ?thesis
    unfolding search_from_def start inp
    by (simp add: p c n5 n2 one expand_Cons DERIVATION_LIMIT_def del: expand.simps(2))
qed

section \<open>The nodes of the search and the limit\<close>

text \<open>
  The search of \<open>getDerivation\<close> without its two returns inside the loop: \<open>children\<close>
  are the paths and strings that one turn of the loop \<open>while (queue.length !== 0)\<close>
  pushes for the path it has shifted, and \<open>generated k\<close> are all that the first \<open>k\<close>
  turns push, in the order of the pushes.  The search passes the limit when more than
  \<open>Earley.DERIVATION_LIMIT\<close> paths are pushed and the strings of the first
  \<open>Earley.DERIVATION_LIMIT + 1\<close> of them all differ from the input; had one of them
  been the input, the search would have returned its path.
\<close>

definition children :: "heap \<Rightarrow> state list \<times> string \<Rightarrow> (state list \<times> string) list" where
  "children h node =
     map (\<lambda>newState. (fst node @ [newState], next_string newState (snd node)))
       (prev h (counter (last (fst node))))"

fun generated :: "nat \<Rightarrow> heap \<Rightarrow> (state list \<times> string) list \<Rightarrow> (state list \<times> string) list" where
  "generated 0 h queue = []"
| "generated (Suc k) h [] = []"
| "generated (Suc k) h (node # queue) =
     children h node @ generated k h (queue @ children h node)"

definition exceeds_from :: "heap \<Rightarrow> string \<Rightarrow> (state list \<times> string) list \<Rightarrow> nat \<Rightarrow> bool" where
  "exceeds_from h inp queue n =
     (\<exists>k. DERIVATION_LIMIT - n < length (generated k h queue) \<and>
          (\<forall>node\<in>set (take (DERIVATION_LIMIT + 1 - n) (generated k h queue)). snd node \<noteq> inp))"

definition exceeds_limit :: "heap \<Rightarrow> state \<Rightarrow> string \<Rightarrow> bool" where
  "exceeds_limit h match inp =
     (\<exists>k. DERIVATION_LIMIT
            < length (generated k h [([match], SymArray_toString (symArray match))]) \<and>
          (\<forall>node\<in>set (take (DERIVATION_LIMIT + 1)
                          (generated k h [([match], SymArray_toString (symArray match))])).
             snd node \<noteq> escapeHTML inp))"

lemma exceeds_limit_from:
  "exceeds_limit h match inp =
     exceeds_from h (escapeHTML inp) [([match], SymArray_toString (symArray match))] 0"
  by (simp add: exceeds_limit_def exceeds_from_def)

lemma generated_Nil: "generated k h [] = []"
  by (cases k) simp_all

lemma expand_spec:
  "n \<le> DERIVATION_LIMIT \<Longrightarrow>
   expand inp sts cur pv queue n =
     (let cs = map (\<lambda>y. (sts @ [y], next_string y cur)) pv in
      case find (\<lambda>c. snd c = inp) (take (DERIVATION_LIMIT + 1 - n) cs) of
        Some c \<Rightarrow> Inl (Found (fst c))
      | None \<Rightarrow>
          if DERIVATION_LIMIT - n < length cs then Inl LimitReached
          else Inr (queue @ cs, n + length cs))"
proof (induction pv arbitrary: queue n)
  case Nil
  then show ?case by simp
next
  case (Cons y rest)
  from Cons.prems have t: "Suc DERIVATION_LIMIT - n = Suc (DERIVATION_LIMIT - n)" by simp
  show ?case
  proof (cases "next_string y cur = inp")
    case True
    then show ?thesis by (simp add: expand_Cons t Let_def del: expand.simps)
  next
    case ne: False
    show ?thesis
    proof (cases "n + 1 > DERIVATION_LIMIT")
      case True
      with Cons.prems have "DERIVATION_LIMIT - n = 0" by simp
      with ne True show ?thesis by (simp add: expand_Cons t Let_def del: expand.simps)
    next
      case False
      then have le: "n + 1 \<le> DERIVATION_LIMIT" by simp
      then have t': "DERIVATION_LIMIT - n = Suc (DERIVATION_LIMIT - Suc n)"
        by simp
      from Cons.IH [OF le, of "queue @ [(sts @ [y], next_string y cur)]"] ne False
      show ?thesis
        by (simp add: expand_Cons t t' Let_def del: expand.simps split: option.splits)
    qed
  qed
qed

lemma find_SomeD: "find P xs = Some x \<Longrightarrow> x \<in> set xs \<and> P x"
  by (induction xs) (auto split: if_splits)

lemma search_loop_limit:
  "n \<le> DERIVATION_LIMIT \<Longrightarrow>
   (search_loop h inp queue n = LimitReached) = exceeds_from h inp queue n"
proof (induction h inp queue n rule: search_loop.induct)
  case (1 h inp n)
  then show ?case by (simp add: exceeds_from_def generated_Nil)
next
  case (2 h inp sts cur queue n)
  let ?L = DERIVATION_LIMIT
  let ?cs = "children h (sts, cur)"
  let ?pv = "prev h (counter (last sts))"
  have cs: "?cs = map (\<lambda>y. (sts @ [y], next_string y cur)) ?pv"
    by (simp add: children_def)
  note E = expand_spec [OF "2.prems", of inp sts cur ?pv queue, folded cs, unfolded Let_def]
  have gen: "generated (Suc k) h ((sts, cur) # queue) = ?cs @ generated k h (queue @ ?cs)" for k
    by simp
  show ?case
  proof (cases "find (\<lambda>c. snd c = inp) (take (?L + 1 - n) ?cs)")
    case (Some c)
    with E have "search_loop h inp ((sts, cur) # queue) n = Found (fst c)" by simp
    moreover have "\<not> exceeds_from h inp ((sts, cur) # queue) n"
    proof
      assume "exceeds_from h inp ((sts, cur) # queue) n"
      then obtain k where
        len: "?L - n < length (generated k h ((sts, cur) # queue))"
        and all: "\<forall>node\<in>set (take (?L + 1 - n) (generated k h ((sts, cur) # queue))).
                    snd node \<noteq> inp"
        unfolding exceeds_from_def by blast
      from len obtain k' where k: "k = Suc k'" by (cases k) auto
      from Some have c: "c \<in> set (take (?L + 1 - n) ?cs)" "snd c = inp"
        by (auto dest: find_SomeD)
      from c(1) have "c \<in> set (take (?L + 1 - n) (?cs @ generated k' h (queue @ ?cs)))"
        by simp
      with all c(2) show False unfolding k gen by blast
    qed
    ultimately show ?thesis by simp
  next
    case None
    then have nm: "\<forall>c\<in>set (take (?L + 1 - n) ?cs). snd c \<noteq> inp"
      by (auto simp: find_None_iff)
    show ?thesis
    proof (cases "?L - n < length ?cs")
      case True
      with E None have "search_loop h inp ((sts, cur) # queue) n = LimitReached" by simp
      moreover have "exceeds_from h inp ((sts, cur) # queue) n"
        unfolding exceeds_from_def
      proof (intro exI conjI)
        show "?L - n < length (generated (Suc 0) h ((sts, cur) # queue))"
          using True by simp
        show "\<forall>node\<in>set (take (?L + 1 - n) (generated (Suc 0) h ((sts, cur) # queue))).
                snd node \<noteq> inp"
          using nm by simp
      qed
      ultimately show ?thesis by simp
    next
      case False
      then have le: "length ?cs \<le> ?L - n" by simp
      with "2.prems" have n': "n + length ?cs \<le> ?L" by simp
      from E None False
      have X: "expand inp sts cur ?pv queue n = Inr (queue @ ?cs, n + length ?cs)" by simp
      from "2.IH" [OF X refl n']
      have IH: "(search_loop h inp (queue @ ?cs) (n + length ?cs) = LimitReached)
                 = exceeds_from h inp (queue @ ?cs) (n + length ?cs)" .
      from X have S: "search_loop h inp ((sts, cur) # queue) n
                      = search_loop h inp (queue @ ?cs) (n + length ?cs)"
        by simp
      from le nm have all_cs: "\<forall>c\<in>set ?cs. snd c \<noteq> inp" by simp
      have tk: "take (?L + 1 - n) (?cs @ g) = ?cs @ take (?L + 1 - (n + length ?cs)) g" for g
        using le by simp
      have ln: "?L - n < length (?cs @ g) \<longleftrightarrow> ?L - (n + length ?cs) < length g" for g
        using le by auto
      have "exceeds_from h inp ((sts, cur) # queue) n
            = exceeds_from h inp (queue @ ?cs) (n + length ?cs)"
      proof
        assume "exceeds_from h inp ((sts, cur) # queue) n"
        then obtain k where
          len: "?L - n < length (generated k h ((sts, cur) # queue))"
          and all: "\<forall>node\<in>set (take (?L + 1 - n) (generated k h ((sts, cur) # queue))).
                      snd node \<noteq> inp"
          unfolding exceeds_from_def by blast
        from len obtain k' where k: "k = Suc k'" by (cases k) auto
        from len have "?L - (n + length ?cs) < length (generated k' h (queue @ ?cs))"
          unfolding k gen ln .
        moreover from all
        have "\<forall>node\<in>set (take (?L + 1 - (n + length ?cs)) (generated k' h (queue @ ?cs))).
                snd node \<noteq> inp"
          unfolding k gen tk by simp
        ultimately show "exceeds_from h inp (queue @ ?cs) (n + length ?cs)"
          unfolding exceeds_from_def by blast
      next
        assume "exceeds_from h inp (queue @ ?cs) (n + length ?cs)"
        then obtain k' where
          len: "?L - (n + length ?cs) < length (generated k' h (queue @ ?cs))"
          and all: "\<forall>node\<in>set (take (?L + 1 - (n + length ?cs))
                                  (generated k' h (queue @ ?cs))). snd node \<noteq> inp"
          unfolding exceeds_from_def by blast
        from len have "?L - n < length (generated (Suc k') h ((sts, cur) # queue))"
          unfolding gen ln .
        moreover from all all_cs
        have "\<forall>node\<in>set (take (?L + 1 - n) (generated (Suc k') h ((sts, cur) # queue))).
                snd node \<noteq> inp"
          unfolding gen tk by auto
        ultimately show "exceeds_from h inp ((sts, cur) # queue) n"
          unfolding exceeds_from_def by blast
      qed
      with IH S show ?thesis by simp
    qed
  qed
qed

lemma search_from_limit: "(search_from h match inp = LimitReached) = exceeds_limit h match inp"
  unfolding search_from_def exceeds_limit_from by (rule search_loop_limit) simp

section \<open>The result of the search for a derivation\<close>

text \<open>
  Claim C5.  When the last bucket holds a complete start State, so that the string is a
  match, the search of \<open>getDerivation\<close> leaves by the limit exactly when it pushes more
  than \<open>Earley.DERIVATION_LIMIT\<close> paths, which is 50000, without finding the input.
  Then \<open>getDerivation\<close> returns the empty array and so does \<open>doesMatch\<close>: a match whose
  derivation is not available.  It is not \<open>null\<close>, the result for no match.
\<close>

theorem derivation_limit_is_a_match:
  assumes "buildChart g inp h = Some (Inr (ctx, h'))"
    and "find isCompleteParse (states ctx ! length inp) = Some m"
  shows "DERIVATION_LIMIT = 50000 \<and>
         (exceeds_limit h' m inp \<longleftrightarrow> search_from h' m inp = LimitReached) \<and>
         (exceeds_limit h' m inp \<longrightarrow>
            getDerivation h' m inp = [] \<and>
            doesMatch g inp h = Some (Inr (Some [], h')) \<and>
            isMatch (Some []) \<and> \<not> showsDerivation (Some []) \<and> \<not> isMatch None \<and>
            verdict (doesMatch g inp h) = Match)"
proof (intro conjI impI)
  show "DERIVATION_LIMIT = 50000" by (simp add: DERIVATION_LIMIT_def)
  show "exceeds_limit h' m inp \<longleftrightarrow> search_from h' m inp = LimitReached"
    by (simp add: search_from_limit)
next
  assume "exceeds_limit h' m inp"
  then have L: "search_from h' m inp = LimitReached" by (simp add: search_from_limit)
  then show G: "getDerivation h' m inp = []" by (simp add: getDerivation_def)
  with assms show D: "doesMatch g inp h = Some (Inr (Some [], h'))"
    by (simp add: doesMatch_def)
  show "isMatch (Some [])" "\<not> isMatch None" by (simp_all add: isMatch_def)
  show "\<not> showsDerivation (Some [])" by (simp add: showsDerivation_def)
  from D show "verdict (doesMatch g inp h) = Match" by (simp add: verdict_def isMatch_def)
qed

theorem derivation_limit_is_a_match_witness:
  "\<exists>ctx h' m. buildChart grammar_amp_cycle ''0'' initial_heap = Some (Inr (ctx, h')) \<and>
     find isCompleteParse (states ctx ! length ''0'') = Some m \<and>
     exceeds_limit h' m ''0'' \<and>
     search_from h' m ''0'' = LimitReached \<and>
     getDerivation h' m ''0'' = [] \<and>
     doesMatch grammar_amp_cycle ''0'' initial_heap = Some (Inr (Some [], h')) \<and>
     verdict (doesMatch grammar_amp_cycle ''0'' initial_heap) = Match"
proof -
  from chart_amp_cycle obtain ctx h' where
    B: "buildChart grammar_amp_cycle ''0'' initial_heap = Some (Inr (ctx, h'))"
    and S: "states ctx = [map cycle_state [1, 2, 3], map cycle_state [20, 21, 22]]"
    and p: "prev h' 1 = []"
      "prev h' 2 = [cycle_state 1, cycle_state 2]"
      "prev h' 3 = [cycle_state 1, cycle_state 2]"
      "prev h' 20 = [cycle_state 3]"
      "prev h' 21 = [cycle_state 20, cycle_state 22]"
      "prev h' 22 = [cycle_state 20, cycle_state 22]"
    by blast
  from S have F: "find isCompleteParse (states ctx ! length ''0'') = Some (cycle_state 21)"
    by (simp add: isCompleteParse_def hasStart_def isComplete_def cycle_state_def)
  have "search_from h' (cycle_state 21) ''0'' = LimitReached"
    by (rule search_amp_cycle [OF p])
  then have X: "exceeds_limit h' (cycle_state 21) ''0''" by (simp add: search_from_limit)
  from derivation_limit_is_a_match [OF B F] X B F show ?thesis by blast
qed

text \<open>
  Claim C10.  When the last bucket holds a complete start State, \<open>doesMatch\<close> does not
  return \<open>null\<close>: it returns the array of \<open>getDerivation\<close>, which is the path found, not
  empty, or the empty array.  The empty array is returned when the search leaves by the
  limit and also when the queue runs empty and no string of the search was the input; the
  caller sees the same value in both cases.
\<close>

theorem complete_parse_never_null:
  assumes "buildChart g inp h = Some (Inr (ctx, h'))"
    and "find isCompleteParse (states ctx ! length inp) = Some m"
  shows "\<exists>path. doesMatch g inp h = Some (Inr (Some path, h')) \<and> isMatch (Some path) \<and>
           (case search_from h' m inp of
              Found p \<Rightarrow> path = p \<and> p \<noteq> []
            | LimitReached \<Rightarrow> path = []
            | Exhausted \<Rightarrow> path = [])"
proof -
  from assms have D: "doesMatch g inp h = Some (Inr (Some (getDerivation h' m inp), h'))"
    by (simp add: doesMatch_def)
  have "case search_from h' m inp of
          Found p \<Rightarrow> getDerivation h' m inp = p \<and> p \<noteq> []
        | LimitReached \<Rightarrow> getDerivation h' m inp = []
        | Exhausted \<Rightarrow> getDerivation h' m inp = []"
  proof (cases "search_from h' m inp")
    case (Found p)
    then have "p \<noteq> []" unfolding search_from_def by (rule search_loop_Found)
    with Found show ?thesis by (simp add: getDerivation_def)
  next
    case LimitReached
    then show ?thesis by (simp add: getDerivation_def)
  next
    case Exhausted
    then show ?thesis by (simp add: getDerivation_def)
  qed
  with D show ?thesis by (simp add: isMatch_def)
qed

theorem complete_parse_never_null_witness:
  "\<exists>ctx h' m. buildChart grammar_amp ''0'' initial_heap = Some (Inr (ctx, h')) \<and>
     find isCompleteParse (states ctx ! length ''0'') = Some m \<and>
     search_from h' m ''0'' = Exhausted \<and>
     doesMatch grammar_amp ''0'' initial_heap = Some (Inr (Some [], h'))"
proof -
  from chart_amp obtain ctx h' where
    B: "buildChart grammar_amp ''0'' initial_heap = Some (Inr (ctx, h'))"
    and S: "states ctx = [map chain_state [1, 2], map chain_state [5, 6]]"
    and p: "prev h' 1 = []"
      "prev h' 2 = [chain_state 1]"
      "prev h' 5 = [chain_state 2]"
      "prev h' 6 = [chain_state 5]"
    by blast
  from S have F: "find isCompleteParse (states ctx ! length ''0'') = Some (chain_state 6)"
    by (simp add: isCompleteParse_def hasStart_def isComplete_def chain_state_def)
  have E: "search_from h' (chain_state 6) ''0'' = Exhausted"
    by (rule search_amp [OF p])
  from complete_parse_never_null [OF B F] E
  have "doesMatch grammar_amp ''0'' initial_heap = Some (Inr (Some [], h'))" by simp
  with B F E show ?thesis by blast
qed

end
